theory Spec2Isabelle
  imports Main "HOL-Library.Sublist"
begin

section \<open>Strings\<close>

text \<open>
  A JavaScript string is a sequence of code units. The model covers the strings whose
  code units lie in the range 0..255, one \<^typ>\<open>char\<close> per code unit. On that range
  the classes \<^verbatim>\<open>\w\<close> and \<^verbatim>\<open>\s\<close> of a regular expression without the \<^verbatim>\<open>u\<close> and \<^verbatim>\<open>i\<close>
  flags, and \<^verbatim>\<open>String.prototype.toLowerCase\<close>, act on single code units as below.
\<close>

definition is_word :: "char \<Rightarrow> bool" where
  "is_word c = (let n = (of_char c :: nat) in
     (48 \<le> n \<and> n \<le> 57) \<or> (65 \<le> n \<and> n \<le> 90) \<or> n = 95 \<or> (97 \<le> n \<and> n \<le> 122))"

definition is_space :: "char \<Rightarrow> bool" where
  "is_space c = (let n = (of_char c :: nat) in (9 \<le> n \<and> n \<le> 13) \<or> n = 32 \<or> n = 160)"

definition lower_char :: "char \<Rightarrow> char" where
  "lower_char c = (let n = (of_char c :: nat) in
     if (65 \<le> n \<and> n \<le> 90) \<or> (192 \<le> n \<and> n \<le> 222 \<and> n \<noteq> 215)
     then char_of (n + 32) else c)"

definition toLowerCase :: "string \<Rightarrow> string" where
  "toLowerCase s = map lower_char s"

text \<open>A value is truthy when it is neither \<^verbatim>\<open>null\<close>/\<^verbatim>\<open>undefined\<close> nor the empty string.\<close>

fun truthy :: "string option \<Rightarrow> bool" where
  "truthy None = False"
| "truthy (Some s) = (s \<noteq> [])"

text \<open>\<^verbatim>\<open>x || ''\<close> for an optional string.\<close>

fun or_empty :: "string option \<Rightarrow> string" where
  "or_empty None = []"
| "or_empty (Some s) = s"

section \<open>The selector engine (class CssSelector)\<close>

datatype CssSelector = CssSelector
  (element: "string option")
  (classNames: "string list")
  (attrs: "string list")
  (notSelectors: "CssSelector list")

definition new_CssSelector :: CssSelector where
  "new_CssSelector = CssSelector None [] [] []"

fun setElement :: "string option \<Rightarrow> CssSelector \<Rightarrow> CssSelector" where
  "setElement e (CssSelector _ cs ats ns) = CssSelector e cs ats ns"

fun addClassName :: "string \<Rightarrow> CssSelector \<Rightarrow> CssSelector" where
  "addClassName name (CssSelector e cs ats ns) = CssSelector e (cs @ [toLowerCase name]) ats ns"

fun addAttribute :: "string \<Rightarrow> string \<Rightarrow> CssSelector \<Rightarrow> CssSelector" where
  "addAttribute name val (CssSelector e cs ats ns) =
     CssSelector e cs (ats @ [name, toLowerCase val]) ns"

fun push_not :: "CssSelector \<Rightarrow> CssSelector \<Rightarrow> CssSelector" where
  "push_not n (CssSelector e cs ats ns) = CssSelector e cs ats (ns @ [n])"

subsection \<open>SELECTOR\_REGEXP\<close>

text \<open>
  The regular expression has five alternatives, tried in this order at a position:
  \<^verbatim>\<open>(:not\()\<close>, \<^verbatim>\<open>(([.#]?)[-\w]+)\<close>,
  \<^verbatim>\<open>\[([-.\w*\\$]+)(?:=(["']?)([^\]"']*)\5)?\]\<close>, \<^verbatim>\<open>(\))\<close> and \<^verbatim>\<open>(\s*,\s*)\<close>.
  A match sets the groups of one alternative only, so a match is a value of \<open>rmatch\<close>:
  \<open>MNot\<close> is group 1; \<open>MTag tag prefix\<close> carries groups 2 and 3; \<open>MAttr name value\<close>
  carries group 4 and group 6 (\<open>None\<close> when the optional \<^verbatim>\<open>=value\<close> part did not take part);
  \<open>MClose\<close> is group 7 and \<open>MComma\<close> group 8.
\<close>

datatype rmatch = MNot | MTag string string | MAttr string "string option" | MClose | MComma

definition tag_char :: "char \<Rightarrow> bool" where
  "tag_char c = (c = CHR ''-'' \<or> is_word c)"

definition attr_char :: "char \<Rightarrow> bool" where
  "attr_char c = (c = CHR ''-'' \<or> c = CHR ''.'' \<or> is_word c \<or> c = CHR ''*'' \<or> c = CHR 0x5C
     \<or> c = CHR ''$'')"

definition is_quote :: "char \<Rightarrow> bool" where
  "is_quote c = (c = CHR 0x22 \<or> c = CHR 0x27)"

definition value_char :: "char \<Rightarrow> bool" where
  "value_char c = (c \<noteq> CHR '']'' \<and> \<not> is_quote c)"

text \<open>
  Each function below matches one alternative at the start of the string and returns the
  match with the text after it. Every quantifier of the expression is followed by a
  character that its class excludes, so the greedy choice (the longest run) is the only
  one that can succeed and backtracking finds no other match.
\<close>

definition alt_not :: "string \<Rightarrow> (rmatch \<times> string) option" where
  "alt_not s = (if prefix '':not('' s then Some (MNot, drop 5 s) else None)"

definition alt_tag :: "string \<Rightarrow> (rmatch \<times> string) option" where
  "alt_tag s =
     (let p = (case s of [] \<Rightarrow> [] | c # _ \<Rightarrow> if c = CHR ''.'' \<or> c = CHR ''#'' then [c] else []);
          s1 = drop (length p) s;
          run = takeWhile tag_char s1
      in if run = [] then None else Some (MTag (p @ run) p, dropWhile tag_char s1))"

definition opt_quote :: "string \<Rightarrow> string" where
  "opt_quote s = (case s of [] \<Rightarrow> [] | e # _ \<Rightarrow> if is_quote e then [e] else [])"

text \<open>
  The part \<^verbatim>\<open>(["']?)([^\]"']*)\5\]\<close> after the \<^verbatim>\<open>=\<close> sign: the value (group 6) and the
  text after the closing bracket.
\<close>

definition alt_attr_value :: "string \<Rightarrow> (string \<times> string) option" where
  "alt_attr_value s3 =
     (let q = opt_quote s3;
          s4 = drop (length q) s3;
          v = takeWhile value_char s4;
          s5 = dropWhile value_char s4
      in if prefix (q @ '']'') s5 then Some (v, drop (length q + 1) s5) else None)"

definition alt_attr :: "string \<Rightarrow> (rmatch \<times> string) option" where
  "alt_attr s =
     (case s of [] \<Rightarrow> None
      | c # s1 \<Rightarrow>
          if c \<noteq> CHR ''['' then None
          else let name = takeWhile attr_char s1; s2 = dropWhile attr_char s1 in
            if name = [] then None
            else (case s2 of [] \<Rightarrow> None
              | d # s3 \<Rightarrow>
                  if d = CHR ''='' then
                    (case alt_attr_value s3 of None \<Rightarrow> None
                     | Some (v, rest) \<Rightarrow> Some (MAttr name (Some v), rest))
                  else if d = CHR '']'' then Some (MAttr name None, s3)
                  else None))"

definition alt_close :: "string \<Rightarrow> (rmatch \<times> string) option" where
  "alt_close s = (case s of [] \<Rightarrow> None | c # rest \<Rightarrow> if c = CHR '')'' then Some (MClose, rest) else None)"

definition alt_comma :: "string \<Rightarrow> (rmatch \<times> string) option" where
  "alt_comma s =
     (case dropWhile is_space s of [] \<Rightarrow> None
      | c # rest \<Rightarrow> if c = CHR '','' then Some (MComma, dropWhile is_space rest) else None)"

definition match_here :: "string \<Rightarrow> (rmatch \<times> string) option" where
  "match_here s =
     (case alt_not s of Some r \<Rightarrow> Some r | None \<Rightarrow>
       (case alt_tag s of Some r \<Rightarrow> Some r | None \<Rightarrow>
         (case alt_attr s of Some r \<Rightarrow> Some r | None \<Rightarrow>
           (case alt_close s of Some r \<Rightarrow> Some r | None \<Rightarrow> alt_comma s))))"

text \<open>
  \<^verbatim>\<open>SELECTOR_REGEXP.exec\<close> with the \<^verbatim>\<open>g\<close> flag: the leftmost match at or after
  \<^verbatim>\<open>lastIndex\<close>. The argument is the text from \<^verbatim>\<open>lastIndex\<close> on; the result is the
  match and the text from the new \<^verbatim>\<open>lastIndex\<close> on, or \<open>None\<close> for \<^verbatim>\<open>null\<close>.
\<close>

fun exec :: "string \<Rightarrow> (rmatch \<times> string) option" where
  "exec [] = None"
| "exec (c # cs) = (case match_here (c # cs) of Some r \<Rightarrow> Some r | None \<Rightarrow> exec cs)"

subsection \<open>CssSelector.parse\<close>

datatype error = NestingNot | MultipleInNot | TypeError

text \<open>
  The variable \<^verbatim>\<open>current\<close> aliases either \<^verbatim>\<open>cssSelector\<close> itself (\<open>CurTop\<close>) or the
  selector pushed last on \<^verbatim>\<open>cssSelector.notSelectors\<close> (\<open>CurNot\<close>); a method called on
  \<^verbatim>\<open>current\<close> updates the object it aliases.
\<close>

datatype cur_ref = CurTop | CurNot

record pstate =
  results :: "CssSelector list"
  cssSelector :: CssSelector
  current :: cur_ref
  inNot :: bool

fun on_last_not :: "(CssSelector \<Rightarrow> CssSelector) \<Rightarrow> CssSelector \<Rightarrow> CssSelector" where
  "on_last_not f (CssSelector e cs ats ns) =
     CssSelector e cs ats (if ns = [] then [] else butlast ns @ [f (last ns)])"

definition on_current :: "(CssSelector \<Rightarrow> CssSelector) \<Rightarrow> pstate \<Rightarrow> pstate" where
  "on_current f st =
     (case current st of
        CurTop \<Rightarrow> st\<lparr>cssSelector := f (cssSelector st)\<rparr>
      | CurNot \<Rightarrow> st\<lparr>cssSelector := on_last_not f (cssSelector st)\<rparr>)"

text \<open>One iteration of the \<^verbatim>\<open>while\<close> loop of \<^verbatim>\<open>parse\<close>, for the match \<open>m\<close>.\<close>

fun parse_step :: "pstate \<Rightarrow> rmatch \<Rightarrow> error + pstate" where
  "parse_step st MNot =
     (if inNot st then Inl NestingNot
      else Inr (st\<lparr>inNot := True, current := CurNot,
                   cssSelector := push_not new_CssSelector (cssSelector st)\<rparr>))"
| "parse_step st (MTag tag pre) =
     Inr (if pre = ''#'' then on_current (addAttribute ''id'' (drop 1 tag)) st
          else if pre = ''.'' then on_current (addClassName (drop 1 tag)) st
          else on_current (setElement (Some tag)) st)"
| "parse_step st (MAttr attribute v) =
     Inr (on_current (addAttribute attribute (or_empty v)) st)"
| "parse_step st MClose = Inr (st\<lparr>inNot := False, current := CurTop\<rparr>)"
| "parse_step st MComma =
     (if inNot st then Inl MultipleInNot
      else Inr (st\<lparr>results := results st @ [cssSelector st],
                   cssSelector := new_CssSelector, current := CurTop\<rparr>))"

lemma alt_not_shorter: "alt_not s = Some (m, r) \<Longrightarrow> length r < length s"
  by (auto simp: alt_not_def prefix_def split: if_splits)

lemma alt_tag_shorter: "alt_tag s = Some (m, r) \<Longrightarrow> length r < length s"
proof -
  assume a: "alt_tag s = Some (m, r)"
  define p where "p = (case s of [] \<Rightarrow> [] | c # _ \<Rightarrow> if c = CHR ''.'' \<or> c = CHR ''#'' then [c] else [])"
  from a have run: "takeWhile tag_char (drop (length p) s) \<noteq> []"
    and r: "r = dropWhile tag_char (drop (length p) s)"
    by (auto simp: alt_tag_def Let_def p_def split: if_splits)
  have "length (takeWhile tag_char (drop (length p) s)) + length r = length (drop (length p) s)"
    unfolding r by (metis length_append takeWhile_dropWhile_id)
  with run show ?thesis by (cases "takeWhile tag_char (drop (length p) s)") auto
qed

lemma length_dropWhile_le_Suc: "length (dropWhile P xs) < Suc (length xs)"
  by (simp add: length_dropWhile_le less_Suc_eq_le)

lemma dropWhile_Cons_shorter: "dropWhile P xs = d # ys \<Longrightarrow> length ys < length xs"
  using length_dropWhile_le [of P xs] by simp

lemma drop_dropWhile_drop_le: "length (drop k (dropWhile Q (drop j ys))) \<le> length ys"
proof -
  have "length (drop k (dropWhile Q (drop j ys))) \<le> length (dropWhile Q (drop j ys))" by simp
  also have "\<dots> \<le> length (drop j ys)" by (rule length_dropWhile_le)
  also have "\<dots> \<le> length ys" by simp
  finally show ?thesis .
qed

lemma alt_attr_value_shorter:
  assumes "alt_attr_value s = Some (v, r)"
  shows "length r \<le> length s"
proof -
  from assms
  have "r = drop (length (opt_quote s) + 1) (dropWhile value_char (drop (length (opt_quote s)) s))"
    unfolding alt_attr_value_def Let_def by (simp split: if_splits)
  then show ?thesis by (simp only: drop_dropWhile_drop_le)
qed

lemma alt_attr_shorter:
  assumes a: "alt_attr s = Some (m, r)"
  shows "length r < length s"
proof (cases s)
  case Nil
  with a show ?thesis by (simp add: alt_attr_def)
next
  case (Cons c s1)
  from a Cons obtain d s3 where s2: "dropWhile attr_char s1 = d # s3"
    and r: "r = s3 \<or> (\<exists>v. alt_attr_value s3 = Some (v, r))"
    unfolding alt_attr_def Let_def
    by (auto split: if_splits list.splits option.splits)
  from s2 have l3: "length s3 < length s1" by (rule dropWhile_Cons_shorter)
  from r have "length r \<le> length s3"
    using alt_attr_value_shorter by auto
  with l3 Cons show ?thesis by simp
qed

lemma alt_close_shorter: "alt_close s = Some (m, r) \<Longrightarrow> length r < length s"
  by (auto simp: alt_close_def split: list.splits if_splits)

lemma alt_comma_shorter: "alt_comma s = Some (m, r) \<Longrightarrow> length r < length s"
proof -
  assume a: "alt_comma s = Some (m, r)"
  then obtain rest where d: "dropWhile is_space s = CHR '','' # rest"
    and r: "r = dropWhile is_space rest"
    by (auto simp: alt_comma_def split: list.splits if_splits)
  have "length r \<le> length rest" unfolding r by (rule length_dropWhile_le)
  moreover have "length (dropWhile is_space s) \<le> length s" by (rule length_dropWhile_le)
  ultimately show ?thesis using d by simp
qed

lemma match_here_shorter: "match_here s = Some (m, r) \<Longrightarrow> length r < length s"
  unfolding match_here_def
  by (auto split: option.splits
      dest: alt_not_shorter alt_tag_shorter alt_attr_shorter alt_close_shorter alt_comma_shorter)

lemma exec_shorter: "exec s = Some (m, r) \<Longrightarrow> length r < length s"
proof (induction s)
  case Nil
  then show ?case by simp
next
  case (Cons c cs)
  show ?case
  proof (cases "match_here (c # cs)")
    case None
    with Cons have "length r < length cs" by simp
    then show ?thesis by simp
  next
    case (Some a)
    with Cons.prems have "match_here (c # cs) = Some (m, r)" by simp
    then show ?thesis by (rule match_here_shorter)
  qed
qed

text \<open>
  The \<^verbatim>\<open>while ((match = SELECTOR_REGEXP.exec(selector)))\<close> loop, on the state of the
  parser and the text not yet scanned; after the loop the selector under construction is
  pushed on the results.
\<close>

function parse_loop :: "pstate \<Rightarrow> string \<Rightarrow> error + CssSelector list" where
  "parse_loop st s =
     (case exec s of
        None \<Rightarrow> Inr (results st @ [cssSelector st])
      | Some (m, rest) \<Rightarrow>
          (case parse_step st m of
             Inl e \<Rightarrow> Inl e
           | Inr st' \<Rightarrow> parse_loop st' rest))"
  by pat_completeness auto
termination
  by (relation "measure (\<lambda>(st, s). length s)") (auto dest: exec_shorter)

definition init_pstate :: pstate where
  "init_pstate = \<lparr>results = [], cssSelector = new_CssSelector, current = CurTop, inNot = False\<rparr>"

definition parse :: "string \<Rightarrow> error + CssSelector list" where
  "parse selector = parse_loop init_pstate selector"

subsection \<open>CssSelector.matches\<close>

record ElementInfo =
  tagName :: "string option"
  classList :: "string list option"
  attributes :: "(string \<times> string) list option"

text \<open>
  \<^verbatim>\<open>new Map(entries)\<close>: a later entry with the same key replaces an earlier one.
\<close>

definition new_Map :: "(string \<times> string) list \<Rightarrow> (string \<rightharpoonup> string)" where
  "new_Map entries = map_of (rev entries)"

text \<open>
  The loop \<^verbatim>\<open>for (let i = 0; i < this.attrs.length; i += 2)\<close> over the flat list of names
  and values; with an odd length the last value is \<^verbatim>\<open>undefined\<close>, which is falsy.
\<close>

fun attrs_loop :: "(string \<rightharpoonup> string) \<Rightarrow> string list \<Rightarrow> bool" where
  "attrs_loop elementAttrs [] = True"
| "attrs_loop elementAttrs [n] = (elementAttrs (toLowerCase n) \<noteq> None)"
| "attrs_loop elementAttrs (n # v # rest) =
     (case elementAttrs (toLowerCase n) of
        None \<Rightarrow> False
      | Some x \<Rightarrow> if v \<noteq> [] \<and> x \<noteq> v then False else attrs_loop elementAttrs rest)"

fun matches :: "CssSelector \<Rightarrow> ElementInfo \<Rightarrow> bool" where
  "matches (CssSelector el cls ats nots) e =
     (if truthy el \<and> (\<not> truthy (tagName e)
           \<or> toLowerCase (or_empty el) \<noteq> toLowerCase (or_empty (tagName e))) then False
      else if cls \<noteq> [] \<and>
           \<not> list_all (\<lambda>className. className \<in>
               set (map toLowerCase (case classList e of None \<Rightarrow> [] | Some l \<Rightarrow> l))) cls then False
      else if ats \<noteq> [] \<and>
           \<not> attrs_loop (new_Map (map (\<lambda>(n, v). (toLowerCase n, toLowerCase v))
               (case attributes e of None \<Rightarrow> [] | Some l \<Rightarrow> l))) ats then False
      else if nots \<noteq> [] \<and> list_ex (\<lambda>notSelector. matches notSelector e) nots then False
      else True)"

subsection \<open>CssSelector.toString\<close>

fun attrs_text :: "string list \<Rightarrow> string" where
  "attrs_text [] = []"
| "attrs_text [n] = ''['' @ n @ '']''"
| "attrs_text (n # v # rest) =
     ''['' @ n @ (if v \<noteq> [] then ''='' @ v else []) @ '']'' @ attrs_text rest"

fun toString :: "CssSelector \<Rightarrow> string" where
  "toString (CssSelector el cls ats nots) =
     (if truthy el then or_empty el else [])
     @ concat (map (\<lambda>klass. ''.'' @ klass) cls)
     @ attrs_text ats
     @ concat (map (\<lambda>notSelector. '':not('' @ toString notSelector @ '')'') nots)"


section \<open>Expression trees\<close>

text \<open>
  The expression classes of the Angular compiler that the code inspects are
  \<^verbatim>\<open>ImplicitReceiver\<close>, \<^verbatim>\<open>PropertyRead\<close> (receiver, name), \<^verbatim>\<open>Call\<close> (receiver, args),
  \<^verbatim>\<open>LiteralPrimitive\<close> and \<^verbatim>\<open>ASTWithSource\<close> (ast, source, location). \<open>OtherAST kind subs\<close>
  stands for an expression of any other class (a binary operation, a conditional, an
  interpolation and so on), with its sub-expressions. \<^verbatim>\<open>toString\<close> on an expression is the
  compiler's; it is a parameter \<open>ts\<close> of the functions that call it.
\<close>

datatype ast =
    ImplicitReceiver
  | PropertyRead "ast option" string
  | Call ast "ast list"
  | LiteralPrimitive string
  | ASTWithSource ast "string option" string
  | OtherAST string "ast list"

text \<open>
  The method \<^verbatim>\<open>toString\<close> of the compiler's expression classes, which is not part of the
  repository: the class \<^verbatim>\<open>AST\<close> returns the text \<^verbatim>\<open>AST\<close>, and \<^verbatim>\<open>ASTWithSource\<close> overrides it
  with \<^verbatim>\<open>`${this.source} in ${this.location}`\<close>. It instantiates the parameter \<open>ts\<close> in the
  examples.
\<close>

fun AST_toString :: "ast \<Rightarrow> string" where
  "AST_toString (ASTWithSource a src location) =
     (case src of None \<Rightarrow> ''null'' | Some s \<Rightarrow> s) @ '' in '' @ location"
| "AST_toString _ = ''AST''"

text \<open>
  \<^verbatim>\<open>traverseAST(ast, visitor)\<close>; the visitor updates what it has captured, here the
  accumulator.
\<close>

fun traverseAST :: "ast \<Rightarrow> (ast \<Rightarrow> 'a \<Rightarrow> 'a) \<Rightarrow> 'a \<Rightarrow> 'a" where
  "traverseAST (Call recv args) visitor acc =
     traverseAST recv visitor
       (fold (\<lambda>arg. traverseAST arg visitor) args (visitor (Call recv args) acc))"
| "traverseAST (PropertyRead (Some recv) nm) visitor acc =
     traverseAST recv visitor (visitor (PropertyRead (Some recv) nm) acc)"
| "traverseAST a visitor acc = visitor a acc"

text \<open>
  The visitor of the analyses:
  \<^verbatim>\<open>if (node instanceof PropertyRead && node.receiver instanceof ImplicitReceiver)
     referencedProperties.push(node.name)\<close>.
\<close>

fun push_referenced :: "ast \<Rightarrow> string list \<Rightarrow> string list" where
  "push_referenced (PropertyRead (Some ImplicitReceiver) nm) refs = refs @ [nm]"
| "push_referenced _ refs = refs"

definition referenced :: "ast \<Rightarrow> string list" where
  "referenced expression = traverseAST expression push_referenced []"

section \<open>Template nodes\<close>

type_synonym span = "nat \<times> nat"

type_synonym text_attr = "string \<times> string"
type_synonym bound_attr = "string \<times> ast \<times> span"
type_synonym bound_event = "string \<times> ast \<times> span"

text \<open>
  One constructor for each node class named in \<^verbatim>\<open>ast/types.ts\<close>, with the fields the
  code reads. An element has a name, attributes, inputs, outputs and children; a bound
  attribute a name, a value and a source span; a bound event a name, a handler and a
  source span; a branch of an \<^verbatim>\<open>@if\<close> block an expression and children; a
  \<^verbatim>\<open>@for\<close> block an expression, children and the children of its \<^verbatim>\<open>@empty\<close> block; a case
  of a \<^verbatim>\<open>@switch\<close> block an expression, a source span and children; a \<^verbatim>\<open>@defer\<close> block
  children and the children of its placeholder, loading and error blocks.
\<close>

datatype node =
    Element string "text_attr list" "bound_attr list" "bound_event list" "node list"
  | Template "node list"
  | Text string
  | BoundText ast
  | TextAttribute string string
  | BoundAttribute string ast span
  | BoundEvent string ast span
  | Content
  | Reference string
  | Variable string
  | IfBlock span "(ast option \<times> node list) list"
  | ForLoopBlock span ast "node list" "node list option"
  | SwitchBlock span ast "(ast option \<times> span \<times> node list) list"
  | SwitchBlockCase span "ast option" "node list"
  | DeferredBlock "node list" "node list option" "node list option" "node list option"
  | DeferredBlockPlaceholder "node list"
  | DeferredBlockLoading "node list"
  | DeferredBlockError "node list"

fun constructor_name :: "node \<Rightarrow> string" where
  "constructor_name (Element _ _ _ _ _) = ''Element''"
| "constructor_name (Template _) = ''Template''"
| "constructor_name (Text _) = ''Text''"
| "constructor_name (BoundText _) = ''BoundText''"
| "constructor_name (TextAttribute _ _) = ''TextAttribute''"
| "constructor_name (BoundAttribute _ _ _) = ''BoundAttribute''"
| "constructor_name (BoundEvent _ _ _) = ''BoundEvent''"
| "constructor_name Content = ''Content''"
| "constructor_name (Reference _) = ''Reference''"
| "constructor_name (Variable _) = ''Variable''"
| "constructor_name (IfBlock _ _) = ''IfBlock''"
| "constructor_name (ForLoopBlock _ _ _ _) = ''ForLoopBlock''"
| "constructor_name (SwitchBlock _ _ _) = ''SwitchBlock''"
| "constructor_name (SwitchBlockCase _ _ _) = ''SwitchBlockCase''"
| "constructor_name (DeferredBlock _ _ _ _) = ''DeferredBlock''"
| "constructor_name (DeferredBlockPlaceholder _) = ''DeferredBlockPlaceholder''"
| "constructor_name (DeferredBlockLoading _) = ''DeferredBlockLoading''"
| "constructor_name (DeferredBlockError _) = ''DeferredBlockError''"

text \<open>\<^verbatim>\<open>node.constructor.name.startsWith(typeName)\<close> and the guards of \<^verbatim>\<open>is\<close> that the code uses.\<close>

definition checkNodeType :: "node \<Rightarrow> string \<Rightarrow> bool" where
  "checkNodeType n typeName = prefix typeName (constructor_name n)"

definition is_element :: "node \<Rightarrow> bool" where
  "is_element n = checkNodeType n ''Element''"

definition is_template :: "node \<Rightarrow> bool" where
  "is_template n = checkNodeType n ''Template''"

definition is_propertyBinding :: "node \<Rightarrow> bool" where
  "is_propertyBinding n = checkNodeType n ''BoundAttribute''"

definition is_eventBinding :: "node \<Rightarrow> bool" where
  "is_eventBinding n = checkNodeType n ''BoundEvent''"

definition is_boundText :: "node \<Rightarrow> bool" where
  "is_boundText n = checkNodeType n ''BoundText''"

definition is_ifBlock :: "node \<Rightarrow> bool" where
  "is_ifBlock n = checkNodeType n ''IfBlock''"

definition is_forBlock :: "node \<Rightarrow> bool" where
  "is_forBlock n = checkNodeType n ''ForLoopBlock''"

definition is_switchBlock :: "node \<Rightarrow> bool" where
  "is_switchBlock n = checkNodeType n ''SwitchBlock''"

text \<open>
  The properties \<^verbatim>\<open>children\<close>, \<^verbatim>\<open>branches\<close> and \<^verbatim>\<open>cases\<close> of a node; \<open>None\<close> is
  \<^verbatim>\<open>undefined\<close>, on which a spread or a \<^verbatim>\<open>forEach\<close> throws a TypeError.
\<close>

fun children :: "node \<Rightarrow> node list option" where
  "children (Element _ _ _ _ cs) = Some cs"
| "children (Template cs) = Some cs"
| "children (ForLoopBlock _ _ cs _) = Some cs"
| "children (SwitchBlockCase _ _ cs) = Some cs"
| "children (DeferredBlock cs _ _ _) = Some cs"
| "children (DeferredBlockPlaceholder cs) = Some cs"
| "children (DeferredBlockLoading cs) = Some cs"
| "children (DeferredBlockError cs) = Some cs"
| "children _ = None"

fun branches :: "node \<Rightarrow> (ast option \<times> node list) list option" where
  "branches (IfBlock _ bs) = Some bs"
| "branches _ = None"

fun cases :: "node \<Rightarrow> (ast option \<times> span \<times> node list) list option" where
  "cases (SwitchBlock _ _ cs) = Some cs"
| "cases _ = None"

fun defined :: "'a option \<Rightarrow> error + 'a" where
  "defined None = Inl TypeError"
| "defined (Some x) = Inr x"

text \<open>
  What one iteration of the loop of \<^verbatim>\<open>traverseNodes\<close> pushes on the stack after the
  visitor has seen the node \<open>n\<close> (\<^verbatim>\<open>current\<close>).
\<close>

definition pushed :: "node \<Rightarrow> error + node list" where
  "pushed n =
     (if is_element n then defined (children n)
      else if is_template n then defined (children n)
      else if is_ifBlock n then
        (case branches n of None \<Rightarrow> Inl TypeError
         | Some bs \<Rightarrow> Inr (concat (map (\<lambda>(expression, chs). chs) bs)))
      else if is_forBlock n then defined (children n)
      else if is_switchBlock n then
        (case cases n of None \<Rightarrow> Inl TypeError
         | Some cs \<Rightarrow> Inr (concat (map (\<lambda>(expression, sourceSpan, chs). chs) cs)))
      else Inr [])"


lemma is_element_iff: "is_element n = (case n of Element _ _ _ _ _ \<Rightarrow> True | _ \<Rightarrow> False)"
  by (cases n) (simp_all add: is_element_def checkNodeType_def)
lemma is_template_iff: "is_template n = (case n of Template _ \<Rightarrow> True | _ \<Rightarrow> False)"
  by (cases n) (simp_all add: is_template_def checkNodeType_def)
lemma is_ifBlock_iff: "is_ifBlock n = (case n of IfBlock _ _ \<Rightarrow> True | _ \<Rightarrow> False)"
  by (cases n) (simp_all add: is_ifBlock_def checkNodeType_def)
lemma is_forBlock_iff: "is_forBlock n = (case n of ForLoopBlock _ _ _ _ \<Rightarrow> True | _ \<Rightarrow> False)"
  by (cases n) (simp_all add: is_forBlock_def checkNodeType_def)
lemma is_switchBlock_iff:
  "is_switchBlock n = (case n of SwitchBlock _ _ _ \<Rightarrow> True | SwitchBlockCase _ _ _ \<Rightarrow> True | _ \<Rightarrow> False)"
  by (cases n) (simp_all add: is_switchBlock_def checkNodeType_def)
lemma is_propertyBinding_iff: "is_propertyBinding n = (case n of BoundAttribute _ _ _ \<Rightarrow> True | _ \<Rightarrow> False)"
  by (cases n) (simp_all add: is_propertyBinding_def checkNodeType_def)
lemma is_eventBinding_iff: "is_eventBinding n = (case n of BoundEvent _ _ _ \<Rightarrow> True | _ \<Rightarrow> False)"
  by (cases n) (simp_all add: is_eventBinding_def checkNodeType_def)
lemma is_boundText_iff: "is_boundText n = (case n of BoundText _ \<Rightarrow> True | _ \<Rightarrow> False)"
  by (cases n) (simp_all add: is_boundText_def checkNodeType_def)

lemma pushed_simps:
  "pushed (Element nm ats ins outs cs) = Inr cs"
  "pushed (Template cs) = Inr cs"
  "pushed (Text s) = Inr []"
  "pushed (BoundText v) = Inr []"
  "pushed (TextAttribute nm s) = Inr []"
  "pushed (BoundAttribute nm v sp) = Inr []"
  "pushed (BoundEvent nm v sp) = Inr []"
  "pushed Content = Inr []"
  "pushed (Reference s) = Inr []"
  "pushed (Variable s) = Inr []"
  "pushed (IfBlock sp bs) = Inr (concat (map (\<lambda>(expression, chs). chs) bs))"
  "pushed (ForLoopBlock sp e cs em) = Inr cs"
  "pushed (SwitchBlock sp e css) = Inr (concat (map (\<lambda>(expression, sourceSpan, chs). chs) css))"
  "pushed (SwitchBlockCase sp eo cs) = Inl TypeError"
  "pushed (DeferredBlock cs pl lo er) = Inr []"
  "pushed (DeferredBlockPlaceholder cs) = Inr []"
  "pushed (DeferredBlockLoading cs) = Inr []"
  "pushed (DeferredBlockError cs) = Inr []"
  by (simp_all add: pushed_def is_element_iff is_template_iff is_ifBlock_iff is_forBlock_iff is_switchBlock_iff)

lemma size_concat_branches:
  "size_list size (concat (map (\<lambda>(expression, chs). chs) bs))
     \<le> size_list (size_prod (\<lambda>x. 0) (size_list size)) (bs :: (ast option \<times> node list) list)"
  by (induction bs) auto

lemma size_concat_cases:
  "size_list size (concat (map (\<lambda>(expression, sourceSpan, chs). chs) cs))
     \<le> size_list (size_prod (\<lambda>x. 0) (size_prod (\<lambda>x. 0) (size_list size)))
          (cs :: (ast option \<times> span \<times> node list) list)"
  by (induction cs) auto

lemma pushed_smaller: "pushed n = Inr cs \<Longrightarrow> size_list size cs \<le> size n"
  by (cases n)
    (auto simp: pushed_simps
      intro: order_trans [OF size_concat_branches] order_trans [OF size_concat_cases])

text \<open>
  The loop of \<^verbatim>\<open>traverseNodes\<close>: \<^verbatim>\<open>stack.pop()\<close> takes the last element of the array and
  \<^verbatim>\<open>stack.push(...xs)\<close> appends. The visitor is a closure that updates what it has
  captured (the accumulator) or throws.
\<close>

function traverse_loop :: "(node \<Rightarrow> 'a \<Rightarrow> error + 'a) \<Rightarrow> node list \<Rightarrow> 'a \<Rightarrow> error + 'a" where
  "traverse_loop visitor stack acc =
     (if stack = [] then Inr acc
      else
        (case visitor (last stack) acc of
           Inl e \<Rightarrow> Inl e
         | Inr acc1 \<Rightarrow>
             (case pushed (last stack) of
                Inl e \<Rightarrow> Inl e
              | Inr cs \<Rightarrow> traverse_loop visitor (butlast stack @ cs) acc1)))"
  by pat_completeness auto
termination
proof (relation "measure (\<lambda>(visitor, stack, acc). size_list size stack)")
  show "wf (measure (\<lambda>(visitor, stack, acc). size_list size stack))" by simp
next
  fix visitor :: "node \<Rightarrow> 'a \<Rightarrow> error + 'a" and stack :: "node list" and acc acc1 :: 'a and cs
  assume ne: "stack \<noteq> []" and p: "pushed (last stack) = Inr cs"
  from ne have "size_list size stack = size_list size (butlast stack @ [last stack])" by simp
  also have "\<dots> = size_list size (butlast stack) + size (last stack) + 1"
    by (simp only: size_list_append) simp
  finally have "size_list size (butlast stack) + size_list size cs < size_list size stack"
    using pushed_smaller [OF p] by simp
  then show "((visitor, butlast stack @ cs, acc1), (visitor, stack, acc))
          \<in> measure (\<lambda>(visitor, stack, acc). size_list size stack)"
    by simp
qed

definition traverseNodes :: "node list \<Rightarrow> (node \<Rightarrow> 'a \<Rightarrow> error + 'a) \<Rightarrow> 'a \<Rightarrow> error + 'a" where
  "traverseNodes nodes visitor acc = traverse_loop visitor nodes acc"


section \<open>The queries of class Template\<close>

text \<open>
  Every query walks the parsed nodes with a visitor that pushes on an array or adds to a
  set declared in the query; the model threads that array or set through the traversal.
\<close>

subsection \<open>findElements and matchesSelector\<close>

text \<open>
  \<^verbatim>\<open>value.split(/\s+/)\<close>: the pieces between the maximal runs of white space; \<open>cur\<close> is the
  piece being read.
\<close>

function split_ws :: "string \<Rightarrow> string \<Rightarrow> string list" where
  "split_ws cur [] = [cur]"
| "split_ws cur (c # cs) =
     (if is_space c then cur # split_ws [] (dropWhile is_space cs)
      else split_ws (cur @ [c]) cs)"
  by pat_completeness auto
termination
  by (relation "measure (\<lambda>(cur, s). length s)") (auto simp: length_dropWhile_le less_Suc_eq_le)

fun source_or_empty :: "ast \<Rightarrow> string" where
  "source_or_empty (ASTWithSource a src location) = or_empty src"
| "source_or_empty _ = []"

definition elementInfo :: "string \<Rightarrow> text_attr list \<Rightarrow> bound_attr list \<Rightarrow> ElementInfo" where
  "elementInfo nm ats ins =
     \<lparr>tagName = Some nm,
      classList = Some (case find (\<lambda>(n, v). n = ''class'') ats of
                          None \<Rightarrow> []
                        | Some (n, v) \<Rightarrow> filter (\<lambda>w. w \<noteq> []) (split_ws [] v)),
      attributes = Some (map (\<lambda>(n, v). (n, v)) ats
                         @ map (\<lambda>(n, v, sp). (n, source_or_empty v)) ins)\<rparr>"

text \<open>
  \<^verbatim>\<open>matchesSelector\<close> parses the selector first and then reads the attributes of the
  element; on a node without attributes that read throws a TypeError.
\<close>

fun element_info :: "node \<Rightarrow> error + ElementInfo" where
  "element_info (Element nm ats ins outs cs) = Inr (elementInfo nm ats ins)"
| "element_info _ = Inl TypeError"

definition matchesSelector :: "node \<Rightarrow> string \<Rightarrow> error + bool" where
  "matchesSelector n selector =
     (case parse selector of
        Inl e \<Rightarrow> Inl e
      | Inr selectors \<Rightarrow>
          (case element_info n of
             Inl e \<Rightarrow> Inl e
           | Inr info \<Rightarrow> Inr (list_ex (\<lambda>cssSelector. matches cssSelector info) selectors)))"

definition findElements_visitor :: "string \<Rightarrow> node \<Rightarrow> node list \<Rightarrow> error + node list" where
  "findElements_visitor selector n elements =
     (if is_element n then
        (case matchesSelector n selector of
           Inl e \<Rightarrow> Inl e
         | Inr b \<Rightarrow> Inr (if b then elements @ [n] else elements))
      else Inr elements)"

definition findElements :: "string \<Rightarrow> node list \<Rightarrow> error + node list" where
  "findElements selector nodes = traverseNodes nodes (findElements_visitor selector) []"

subsection \<open>findInterpolations\<close>

definition findInterpolations_visitor :: "node \<Rightarrow> node list \<Rightarrow> node list" where
  "findInterpolations_visitor n interpolations =
     (if is_boundText n then interpolations @ [n] else interpolations)"

definition findInterpolations :: "node list \<Rightarrow> error + node list" where
  "findInterpolations nodes =
     traverseNodes nodes (\<lambda>n acc. Inr (findInterpolations_visitor n acc)) []"

subsection \<open>getBindingDependencies\<close>

text \<open>\<^verbatim>\<open>Set.prototype.add\<close>; the list keeps the insertion order that \<^verbatim>\<open>Array.from\<close> returns.\<close>

definition set_add :: "string \<Rightarrow> string list \<Rightarrow> string list" where
  "set_add x xs = (if x \<in> set xs then xs else xs @ [x])"

text \<open>
  The three \<^verbatim>\<open>if\<close> statements of the visitor. Each guard holds of one node class only
  (lemmas \<open>is_propertyBinding_iff\<close>, \<open>is_eventBinding_iff\<close>, \<open>is_boundText_iff\<close>), whose
  field the statement then reads.
\<close>

definition getBindingDependencies_visitor ::
    "(ast \<Rightarrow> string) \<Rightarrow> node \<Rightarrow> string list \<Rightarrow> string list" where
  "getBindingDependencies_visitor ts n dependencies =
     (let d1 = (if is_propertyBinding n
                then (case n of BoundAttribute nm v sp \<Rightarrow> set_add nm dependencies
                      | _ \<Rightarrow> dependencies)
                else dependencies);
          d2 = (if is_eventBinding n
                then (case n of BoundEvent nm handler sp \<Rightarrow> set_add (ts handler) d1 | _ \<Rightarrow> d1)
                else d1)
      in if is_boundText n
         then (case n of BoundText v \<Rightarrow> set_add (ts v) d2 | _ \<Rightarrow> d2)
         else d2)"

definition getBindingDependencies :: "(ast \<Rightarrow> string) \<Rightarrow> node list \<Rightarrow> error + string list" where
  "getBindingDependencies ts nodes =
     traverseNodes nodes (\<lambda>n acc. Inr (getBindingDependencies_visitor ts n acc)) []"

subsection \<open>getEventHandlers and getPropertyBindings\<close>

record EventHandler =
  eh_name :: string
  eh_arguments :: "string list"
  eh_fullText :: string
  eh_sourceSpan :: span

record PropertyBinding =
  pb_name :: string
  pb_value :: string
  pb_isLiteral :: bool
  pb_referencedProperties :: "string list"
  pb_sourceSpan :: span

text \<open>
  \<^verbatim>\<open>analyzeEventHandler\<close>: \<^verbatim>\<open>name\<close> and \<^verbatim>\<open>args\<close> start empty; a \<^verbatim>\<open>Call\<close> sets \<^verbatim>\<open>name\<close>
  when its receiver is a \<^verbatim>\<open>PropertyRead\<close> and always sets \<^verbatim>\<open>args\<close>; a \<^verbatim>\<open>PropertyRead\<close>
  sets \<^verbatim>\<open>name\<close>.
\<close>

fun handler_name :: "ast \<Rightarrow> string" where
  "handler_name (Call (PropertyRead r nm) args) = nm"
| "handler_name (Call _ args) = []"
| "handler_name (PropertyRead r nm) = nm"
| "handler_name _ = []"

fun handler_args :: "(ast \<Rightarrow> string) \<Rightarrow> ast \<Rightarrow> string list" where
  "handler_args ts (Call r args) = map ts args"
| "handler_args ts _ = []"

fun analyzeEventHandler :: "(ast \<Rightarrow> string) \<Rightarrow> bound_event \<Rightarrow> EventHandler option" where
  "analyzeEventHandler ts (nm, ASTWithSource expression src location, sp) =
     Some \<lparr>eh_name = handler_name expression,
           eh_arguments = handler_args ts expression,
           eh_fullText = ts (ASTWithSource expression src location),
           eh_sourceSpan = sp\<rparr>"
| "analyzeEventHandler ts (nm, _, sp) = None"

fun is_LiteralPrimitive :: "ast \<Rightarrow> bool" where
  "is_LiteralPrimitive (LiteralPrimitive _) = True"
| "is_LiteralPrimitive _ = False"

fun analyzePropertyBinding :: "(ast \<Rightarrow> string) \<Rightarrow> bound_attr \<Rightarrow> PropertyBinding option" where
  "analyzePropertyBinding ts (nm, ASTWithSource expression src location, sp) =
     Some \<lparr>pb_name = nm,
           pb_value = ts (ASTWithSource expression src location),
           pb_isLiteral = is_LiteralPrimitive expression,
           pb_referencedProperties = referenced expression,
           pb_sourceSpan = sp\<rparr>"
| "analyzePropertyBinding ts (nm, _, sp) = None"

text \<open>\<^verbatim>\<open>xs.forEach(x => { const r = analyze(x); if (r) { out.push(r); } })\<close>\<close>

definition push_each :: "('a \<Rightarrow> 'b option) \<Rightarrow> 'a list \<Rightarrow> 'b list \<Rightarrow> 'b list" where
  "push_each analyze xs out =
     fold (\<lambda>x acc. case analyze x of None \<Rightarrow> acc | Some r \<Rightarrow> acc @ [r]) xs out"

definition getEventHandlers_visitor ::
    "(ast \<Rightarrow> string) \<Rightarrow> node \<Rightarrow> EventHandler list \<Rightarrow> EventHandler list" where
  "getEventHandlers_visitor ts n handlers =
     (if is_element n
      then (case n of Element nm ats ins outs cs \<Rightarrow> push_each (analyzeEventHandler ts) outs handlers
            | _ \<Rightarrow> handlers)
      else handlers)"

definition getEventHandlers :: "(ast \<Rightarrow> string) \<Rightarrow> node list \<Rightarrow> error + EventHandler list" where
  "getEventHandlers ts nodes =
     traverseNodes nodes (\<lambda>n acc. Inr (getEventHandlers_visitor ts n acc)) []"

definition getPropertyBindings_visitor ::
    "(ast \<Rightarrow> string) \<Rightarrow> node \<Rightarrow> PropertyBinding list \<Rightarrow> PropertyBinding list" where
  "getPropertyBindings_visitor ts n bindings =
     (if is_element n
      then (case n of Element nm ats ins outs cs \<Rightarrow> push_each (analyzePropertyBinding ts) ins bindings
            | _ \<Rightarrow> bindings)
      else bindings)"

definition getPropertyBindings :: "(ast \<Rightarrow> string) \<Rightarrow> node list \<Rightarrow> error + PropertyBinding list" where
  "getPropertyBindings ts nodes =
     traverseNodes nodes (\<lambda>n acc. Inr (getPropertyBindings_visitor ts n acc)) []"

subsection \<open>getControlFlowExpressions\<close>

record ControlFlowExpression =
  cf_type :: string
  cf_expression :: string
  cf_referencedProperties :: "string list"
  cf_sourceSpan :: span

text \<open>
  The four functions \<^verbatim>\<open>analyzeIfExpression\<close>, \<^verbatim>\<open>analyzeForExpression\<close>,
  \<^verbatim>\<open>analyzeSwitchExpression\<close> and \<^verbatim>\<open>analyzeCaseExpression\<close> have one body, which differs in
  the type written to the record and in the expression \<^verbatim>\<open>expr\<close> taken from the node:
  the properties are collected when \<^verbatim>\<open>expr instanceof ASTWithSource\<close>, and the text is
  \<^verbatim>\<open>expr?.toString() || ''\<close>.
\<close>

fun expr_referenced :: "ast option \<Rightarrow> string list" where
  "expr_referenced (Some (ASTWithSource a src location)) = referenced a"
| "expr_referenced _ = []"

fun expr_text :: "(ast \<Rightarrow> string) \<Rightarrow> ast option \<Rightarrow> string" where
  "expr_text ts None = []"
| "expr_text ts (Some e) = ts e"

definition analyzeExpression ::
    "(ast \<Rightarrow> string) \<Rightarrow> string \<Rightarrow> ast option \<Rightarrow> span \<Rightarrow> ControlFlowExpression" where
  "analyzeExpression ts ty expr sp =
     \<lparr>cf_type = ty, cf_expression = expr_text ts expr,
      cf_referencedProperties = expr_referenced expr, cf_sourceSpan = sp\<rparr>"

text \<open>\<^verbatim>\<open>node.branches[0]?.expression\<close>\<close>

fun first_branch_expression :: "(ast option \<times> node list) list \<Rightarrow> ast option" where
  "first_branch_expression [] = None"
| "first_branch_expression ((expression, chs) # _) = expression"

fun getControlFlowExpressions_visitor ::
    "(ast \<Rightarrow> string) \<Rightarrow> node \<Rightarrow> ControlFlowExpression list \<Rightarrow> ControlFlowExpression list" where
  "getControlFlowExpressions_visitor ts (IfBlock sp bs) expressions =
     expressions @ [analyzeExpression ts ''if'' (first_branch_expression bs) sp]"
| "getControlFlowExpressions_visitor ts (ForLoopBlock sp e cs em) expressions =
     expressions @ [analyzeExpression ts ''for'' (Some e) sp]"
| "getControlFlowExpressions_visitor ts (SwitchBlock sp e css) expressions =
     expressions @ [analyzeExpression ts ''switch'' (Some e) sp]"
| "getControlFlowExpressions_visitor ts (SwitchBlockCase sp e cs) expressions =
     expressions @ [analyzeExpression ts ''case'' e sp]"
| "getControlFlowExpressions_visitor ts _ expressions = expressions"

definition getControlFlowExpressions ::
    "(ast \<Rightarrow> string) \<Rightarrow> node list \<Rightarrow> error + ControlFlowExpression list" where
  "getControlFlowExpressions ts nodes =
     traverseNodes nodes (\<lambda>n acc. Inr (getControlFlowExpressions_visitor ts n acc)) []"

text \<open>
  The order of the visits: the traversal with the visitor that records each node it is
  called on.
\<close>

definition visit_order :: "node list \<Rightarrow> error + node list" where
  "visit_order nodes = traverseNodes nodes (\<lambda>n acc. Inr (acc @ [n])) []"

section \<open>Properties of the traversal\<close>

declare traverse_loop.simps [simp del]

lemma traverse_loop_Nil: "traverse_loop v [] acc = Inr acc"
  by (subst traverse_loop.simps) simp

lemma traverse_loop_snoc:
  "traverse_loop v (xs @ [n]) acc =
     (case v n acc of Inl e \<Rightarrow> Inl e
      | Inr acc1 \<Rightarrow> (case pushed n of Inl e \<Rightarrow> Inl e
                    | Inr cs \<Rightarrow> traverse_loop v (xs @ cs) acc1))"
  by (subst traverse_loop.simps) (simp cong: sum.case_cong)

lemma stack_induct [case_names Nil snoc]:
  assumes "P []"
    and "\<And>xs n. (\<And>cs. pushed n = Inr cs \<Longrightarrow> P (xs @ cs)) \<Longrightarrow> P (xs @ [n])"
  shows "P stack"
proof (induction stack rule: measure_induct_rule [where f = "size_list size"])
  case (less stack)
  show ?case
  proof (cases stack rule: rev_cases)
    case Nil
    with assms(1) show ?thesis by simp
  next
    case (snoc xs n)
    have "P (xs @ cs)" if p: "pushed n = Inr cs" for cs
    proof (rule less.IH)
      from pushed_smaller [OF p] show "size_list size (xs @ cs) < size_list size stack"
        unfolding snoc by simp
    qed
    with assms(2) snoc show ?thesis by simp
  qed
qed

lemma traverse_loop_append:
  "traverse_loop v (xs @ ys) acc =
     (case traverse_loop v ys acc of Inl e \<Rightarrow> Inl e | Inr a \<Rightarrow> traverse_loop v xs a)"
proof (induction ys arbitrary: acc rule: stack_induct)
  case Nil
  then show ?case by (simp add: traverse_loop_Nil)
next
  case (snoc ys n)
  have "traverse_loop v (xs @ ys @ [n]) acc = (case v n acc of Inl e \<Rightarrow> Inl e
      | Inr acc1 \<Rightarrow> (case pushed n of Inl e \<Rightarrow> Inl e
                    | Inr cs \<Rightarrow> traverse_loop v (xs @ ys @ cs) acc1))"
    using traverse_loop_snoc [of v "xs @ ys" n acc] by (simp cong: sum.case_cong)
  also have "\<dots> = (case traverse_loop v (ys @ [n]) acc of Inl e \<Rightarrow> Inl e | Inr a \<Rightarrow> traverse_loop v xs a)"
    unfolding traverse_loop_snoc [of v ys n acc]
    by (auto split: sum.splits simp: snoc)
  finally show ?case .
qed

lemma visit_order_alt: "visit_order nodes = traverse_loop (\<lambda>n acc. Inr (acc @ [n])) nodes []"
  by (simp add: visit_order_def traverseNodes_def)

lemma visit_order_snoc_aux:
  "visit_order (xs @ [n]) =
     (case pushed n of Inl e \<Rightarrow> Inl e
      | Inr cs \<Rightarrow> traverse_loop (\<lambda>n acc. Inr (acc @ [n])) (xs @ cs) [n])"
  unfolding visit_order_alt traverse_loop_snoc by simp

lemma traverse_record:
  "traverse_loop (\<lambda>n acc. Inr (acc @ [n])) stack log =
     (case visit_order stack of Inl e \<Rightarrow> Inl e | Inr vs \<Rightarrow> Inr (log @ vs))"
proof (induction stack arbitrary: log rule: stack_induct)
  case Nil
  then show ?case by (simp add: visit_order_alt traverse_loop_Nil)
next
  case (snoc xs n)
  show ?case
    unfolding visit_order_snoc_aux traverse_loop_snoc
    by (simp add: snoc split: sum.splits)
qed

lemma visit_order_Nil: "visit_order [] = Inr []"
  by (simp add: visit_order_alt traverse_loop_Nil)

lemma visit_order_snoc:
  "visit_order (xs @ [n]) =
     (case pushed n of Inl e \<Rightarrow> Inl e
      | Inr cs \<Rightarrow> (case visit_order (xs @ cs) of Inl e \<Rightarrow> Inl e | Inr vs \<Rightarrow> Inr (n # vs)))"
  unfolding visit_order_snoc_aux by (simp add: traverse_record split: sum.splits)

lemma traverse_pure:
  "traverse_loop (\<lambda>n a. Inr (f n a)) stack acc =
     (case visit_order stack of Inl e \<Rightarrow> Inl e | Inr vs \<Rightarrow> Inr (fold f vs acc))"
proof (induction stack arbitrary: acc rule: stack_induct)
  case Nil
  then show ?case by (simp add: visit_order_Nil traverse_loop_Nil)
next
  case (snoc xs n)
  show ?case
    unfolding visit_order_snoc traverse_loop_snoc
    by (simp add: snoc split: sum.splits)
qed

lemma visit_order_single:
  "visit_order [n] =
     (case pushed n of Inl e \<Rightarrow> Inl e
      | Inr cs \<Rightarrow> (case visit_order cs of Inl e \<Rightarrow> Inl e | Inr vs \<Rightarrow> Inr (n # vs)))"
  using visit_order_snoc [of "[]" n] by (simp cong: sum.case_cong)

lemma visit_order_append:
  "visit_order (xs @ ys) =
     (case visit_order ys of Inl e \<Rightarrow> Inl e
      | Inr b \<Rightarrow> (case visit_order xs of Inl e \<Rightarrow> Inl e | Inr a \<Rightarrow> Inr (b @ a)))"
  unfolding visit_order_alt [of "xs @ ys"] traverse_loop_append
  by (simp add: traverse_record split: sum.splits)

section \<open>Properties of the selector engine\<close>

text \<open>
  Claim C5. \<^verbatim>\<open>matches\<close> is monotonic in \<^verbatim>\<open>:not\<close>: when the list \<^verbatim>\<open>notSelectors\<close> of a
  selector is not empty and one of its entries matches the element, the selector does
  not match the element, whatever the checks of tag, classes and attributes give.
\<close>

theorem matches_not_monotonic:
  assumes "notSelectors S \<noteq> []"
    and "\<exists>n \<in> set (notSelectors S). matches n E"
  shows "\<not> matches S E"
  using assms by (cases S) (simp add: list_ex_iff)

theorem matches_not_monotonic_witness:
  "notSelectors (CssSelector (Some ''div'') [] [] [CssSelector None [''a''] [] []]) \<noteq> []
   \<and> (\<exists>n \<in> set (notSelectors (CssSelector (Some ''div'') [] [] [CssSelector None [''a''] [] []])).
         matches n \<lparr>tagName = Some ''div'', classList = Some [''a''], attributes = None\<rparr>)
   \<and> \<not> matches (CssSelector (Some ''div'') [] [] [CssSelector None [''a''] [] []])
         \<lparr>tagName = Some ''div'', classList = Some [''a''], attributes = None\<rparr>"
proof -
  let ?S = "CssSelector (Some ''div'') [] [] [CssSelector None [''a''] [] []]"
  let ?E = "\<lparr>tagName = Some ''div'', classList = Some [''a''], attributes = None\<rparr>"
  have h1: "notSelectors ?S \<noteq> []" by simp
  have h2: "\<exists>n \<in> set (notSelectors ?S). matches n ?E"
    by (simp add: toLowerCase_def lower_char_def)
  from h1 h2 matches_not_monotonic [OF h1 h2] show ?thesis by blast
qed

section \<open>Properties of the template queries\<close>

text \<open>
  Claim C1, as stated: the traversal visits sibling nodes in the order in which they
  appear in the source template. The loop takes the node pushed last, so on the two
  siblings \<^verbatim>\<open>a\<close>, \<^verbatim>\<open>b\<close> it visits \<^verbatim>\<open>b\<close> first.
\<close>

theorem traversal_order_counterexample:
  "visit_order [Text ''a'', Text ''b''] = Inr [Text ''b'', Text ''a'']"
  by (simp add: visit_order_def traverseNodes_def traverse_loop.simps pushed_simps)

text \<open>
  Claim C1, amended: the traversal is depth-first and pre-order on a last-in-first-out work
  list. The visit of no nodes is empty; a node is visited before the children it pushes,
  which are visited next; and of two runs of siblings the later run is visited, with all
  that it pushes, before the earlier one, so siblings are visited in the reverse of their
  order in the source template.
\<close>

theorem traversal_order_reversed:
  "visit_order [] = Inr []
   \<and> (pushed n = Inr cs \<longrightarrow> visit_order cs = Inr vs \<longrightarrow> visit_order [n] = Inr (n # vs))
   \<and> (visit_order xs = Inr a \<longrightarrow> visit_order ys = Inr b \<longrightarrow> visit_order (xs @ ys) = Inr (b @ a))"
  by (simp add: visit_order_Nil visit_order_single visit_order_append)

text \<open>The amended claim C1 on an element with two children and on two siblings.\<close>

theorem traversal_order_reversed_witness:
  "pushed (Element ''div'' [] [] [] [Text ''a'', Text ''b'']) = Inr [Text ''a'', Text ''b'']
   \<and> visit_order [Text ''a'', Text ''b''] = Inr [Text ''b'', Text ''a'']
   \<and> visit_order [Element ''div'' [] [] [] [Text ''a'', Text ''b'']]
       = Inr [Element ''div'' [] [] [] [Text ''a'', Text ''b''], Text ''b'', Text ''a'']
   \<and> visit_order [Text ''c''] = Inr [Text ''c'']
   \<and> visit_order [Text ''d''] = Inr [Text ''d'']
   \<and> visit_order ([Text ''c''] @ [Text ''d'']) = Inr ([Text ''d''] @ [Text ''c''])"
proof -
  have p: "pushed (Element ''div'' [] [] [] [Text ''a'', Text ''b'']) = Inr [Text ''a'', Text ''b'']"
    by (simp add: pushed_simps)
  have v: "visit_order [Text ''a'', Text ''b''] = Inr [Text ''b'', Text ''a'']"
    by (simp add: visit_order_def traverseNodes_def traverse_loop.simps pushed_simps)
  have c: "visit_order [Text ''c''] = Inr [Text ''c'']"
    by (simp add: visit_order_def traverseNodes_def traverse_loop.simps pushed_simps)
  have d: "visit_order [Text ''d''] = Inr [Text ''d'']"
    by (simp add: visit_order_def traverseNodes_def traverse_loop.simps pushed_simps)
  from p v c d
    traversal_order_reversed [of "Element ''div'' [] [] [] [Text ''a'', Text ''b'']"
      "[Text ''a'', Text ''b'']" "[Text ''b'', Text ''a'']" "[Text ''c'']" "[Text ''c'']"
      "[Text ''d'']" "[Text ''d'']"]
  show ?thesis by simp
qed

text \<open>
  Claim C2 says that \<^verbatim>\<open>getBindingDependencies\<close> returns the name of each property binding
  and the stringified handler of each event binding, besides the stringified text of each
  interpolation. On the template
  \<^verbatim>\<open><div [title]="message1" (click)="onClick1()">Hello {{name1}}</div>\<close> the code returns
  the text of the interpolation alone: the bindings of an element are in its inputs and
  outputs, which the traversal does not push, so the visitor's branches for
  \<^verbatim>\<open>is.propertyBinding\<close> and \<^verbatim>\<open>is.eventBinding\<close> are not reached.
\<close>

theorem getBindingDependencies_skips_bindings:
  "getBindingDependencies AST_toString
     [Element ''div'' []
        [(''title'',
          ASTWithSource (PropertyRead (Some ImplicitReceiver) ''message1'') (Some ''message1'')
            ''test.html@0:5'',
          (5, 23))]
        [(''click'',
          ASTWithSource (Call (PropertyRead (Some ImplicitReceiver) ''onClick1'') [])
            (Some ''onClick1()'') ''test.html@0:24'',
          (24, 44))]
        [BoundText
           (ASTWithSource (OtherAST ''Interpolation'' [PropertyRead (Some ImplicitReceiver) ''name1''])
              (Some ''Hello {{name1}}'') ''test.html@0:45'')]]
   = Inr [''Hello {{name1}} in test.html@0:45'']"
  by (simp add: getBindingDependencies_def traverseNodes_def traverse_loop.simps pushed_simps
      getBindingDependencies_visitor_def is_propertyBinding_iff is_eventBinding_iff
      is_boundText_iff set_add_def)

text \<open>
  Claim C3 says that \<^verbatim>\<open>getControlFlowExpressions\<close> returns a record of kind \<^verbatim>\<open>case\<close> for
  every \<^verbatim>\<open>@case\<close>. On the template
  \<^verbatim>\<open>@switch (mode) { @case (1) { <p>a</p> } }\<close> the code returns the record of the
  \<^verbatim>\<open>@switch\<close> block alone: the traversal pushes the children of each case and never the
  case itself, so the visitor's branch for \<^verbatim>\<open>TmplAstSwitchBlockCase\<close> is not reached.
\<close>

theorem getControlFlowExpressions_skips_case:
  "getControlFlowExpressions AST_toString
     [SwitchBlock (0, 44)
        (ASTWithSource (PropertyRead (Some ImplicitReceiver) ''mode'') (Some ''mode'') ''test.html@0:9'')
        [(Some (ASTWithSource (LiteralPrimitive ''1'') (Some ''1'') ''test.html@0:24''), (18, 42),
          [Element ''p'' [] [] [] [Text ''a'']])]]
   = Inr [\<lparr>cf_type = ''switch'', cf_expression = ''mode in test.html@0:9'',
            cf_referencedProperties = [''mode''], cf_sourceSpan = (0, 44)\<rparr>]"
  by (simp add: getControlFlowExpressions_def traverseNodes_def traverse_loop.simps pushed_simps
      analyzeExpression_def referenced_def)

text \<open>
  No record of kind \<^verbatim>\<open>case\<close> is returned on any template: a case node that is itself on the
  work list passes the guard \<^verbatim>\<open>is.switchBlock\<close> (its class name starts with
  \<^verbatim>\<open>SwitchBlock\<close>) and the read of its \<^verbatim>\<open>cases\<close> throws.
\<close>

lemma visit_order_no_case:
  "visit_order stack = Inr vs \<Longrightarrow> SwitchBlockCase sp e cs \<notin> set vs"
proof (induction stack arbitrary: vs rule: stack_induct)
  case Nil
  then show ?case by (simp add: visit_order_Nil)
next
  case (snoc xs n)
  from snoc.prems obtain ps vs' where p: "pushed n = Inr ps"
    and v: "visit_order (xs @ ps) = Inr vs'" and vs: "vs = n # vs'"
    by (auto simp: visit_order_snoc split: sum.splits)
  from p have "n \<noteq> SwitchBlockCase sp e cs" by (auto simp: pushed_simps)
  with snoc.IH [OF p v] vs show ?case by simp
qed

lemma fold_control_flow_no_case:
  "\<forall>n \<in> set vs. \<forall>sp e cs. n \<noteq> SwitchBlockCase sp e cs \<Longrightarrow>
   \<forall>r \<in> set acc. cf_type r \<noteq> ''case'' \<Longrightarrow>
   \<forall>r \<in> set (fold (getControlFlowExpressions_visitor ts) vs acc). cf_type r \<noteq> ''case''"
proof (induction vs arbitrary: acc)
  case Nil
  then show ?case by simp
next
  case (Cons n vs)
  have "\<forall>r \<in> set (getControlFlowExpressions_visitor ts n acc). cf_type r \<noteq> ''case''"
    using Cons.prems by (cases n) (auto simp: analyzeExpression_def)
  with Cons show ?case by simp
qed

lemma getControlFlowExpressions_never_case:
  assumes "getControlFlowExpressions ts nodes = Inr rs"
  shows "\<forall>r \<in> set rs. cf_type r \<noteq> ''case''"
proof -
  have g: "getControlFlowExpressions ts nodes =
      (case visit_order nodes of Inl e \<Rightarrow> Inl e
       | Inr vs \<Rightarrow> Inr (fold (getControlFlowExpressions_visitor ts) vs []))"
    unfolding getControlFlowExpressions_def traverseNodes_def by (rule traverse_pure)
  with assms obtain vs where v: "visit_order nodes = Inr vs"
    and rs: "rs = fold (getControlFlowExpressions_visitor ts) vs []"
    by (auto split: sum.splits)
  from visit_order_no_case [OF v]
  have "\<forall>n \<in> set vs. \<forall>sp e cs. n \<noteq> SwitchBlockCase sp e cs" by blast
  then show ?thesis unfolding rs by (rule fold_control_flow_no_case) simp
qed

text \<open>
  Claim C8, as stated: a handler of any shape other than a call on a property read or a
  bare property read yields an empty name and empty arguments, and the handler
  \<^verbatim>\<open>save($event)\<close> yields the arguments \<^verbatim>\<open>["$event"]\<close>. A call whose receiver is not a
  property read, as in \<^verbatim>\<open>handler()($event)\<close>, yields an empty name and one stringified
  argument; and with the compiler's \<^verbatim>\<open>toString\<close> the argument of \<^verbatim>\<open>save($event)\<close> is
  stringified as \<^verbatim>\<open>AST\<close>.
\<close>

theorem getEventHandlers_counterexample:
  "analyzeEventHandler AST_toString
     (''click'',
      ASTWithSource (Call (Call (PropertyRead (Some ImplicitReceiver) ''handler'') [])
                          [PropertyRead (Some ImplicitReceiver) ''$event''])
        (Some ''handler()($event)'') ''test.html@0:16'',
      (8, 35))
     = Some \<lparr>eh_name = [], eh_arguments = [''AST''],
              eh_fullText = ''handler()($event) in test.html@0:16'', eh_sourceSpan = (8, 35)\<rparr>
   \<and> getEventHandlers AST_toString
       [Element ''button'' [] []
          [(''click'',
            ASTWithSource (Call (PropertyRead (Some ImplicitReceiver) ''save'')
                                [PropertyRead (Some ImplicitReceiver) ''$event''])
              (Some ''save($event)'') ''test.html@0:16'',
            (8, 29))]
          [Text ''x'']]
     = Inr [\<lparr>eh_name = ''save'', eh_arguments = [''AST''],
              eh_fullText = ''save($event) in test.html@0:16'', eh_sourceSpan = (8, 29)\<rparr>]"
  by (simp add: getEventHandlers_def traverseNodes_def traverse_loop.simps pushed_simps
      getEventHandlers_visitor_def is_element_iff push_each_def)

text \<open>
  The records that the visitor of \<^verbatim>\<open>getEventHandlers\<close> pushes at a node: those of the
  outputs of an element whose handler is an \<^verbatim>\<open>ASTWithSource\<close>, in the order of the outputs,
  and none at any other node.
\<close>

fun handlers_of :: "(ast \<Rightarrow> string) \<Rightarrow> node \<Rightarrow> EventHandler list" where
  "handlers_of ts (Element nm ats ins outs cs) = List.map_filter (analyzeEventHandler ts) outs"
| "handlers_of ts _ = []"

lemma push_each_map_filter: "push_each analyze xs out = out @ List.map_filter analyze xs"
  unfolding push_each_def
  by (induction xs arbitrary: out) (simp_all add: List.map_filter_simps split: option.splits)

lemma getEventHandlers_visitor_handlers_of:
  "getEventHandlers_visitor ts n acc = acc @ handlers_of ts n"
  by (cases n) (simp_all add: getEventHandlers_visitor_def is_element_iff push_each_map_filter)

lemma fold_getEventHandlers_visitor:
  "fold (getEventHandlers_visitor ts) vs acc = acc @ concat (map (handlers_of ts) vs)"
  by (induction vs arbitrary: acc) (simp_all add: getEventHandlers_visitor_handlers_of)

lemma analyzeEventHandler_Some:
  "\<exists>r. analyzeEventHandler ts (ev, ASTWithSource e src loc, sp) = Some r
      \<and> eh_fullText r = ts (ASTWithSource e src loc) \<and> eh_sourceSpan r = sp
      \<and> (\<forall>recv nm args. e = Call (PropertyRead recv nm) args \<longrightarrow>
            eh_name r = nm \<and> eh_arguments r = map ts args)
      \<and> (\<forall>recv args. e = Call recv args \<longrightarrow> (\<forall>r' nm. recv \<noteq> PropertyRead r' nm) \<longrightarrow>
            eh_name r = [] \<and> eh_arguments r = map ts args)
      \<and> (\<forall>recv nm. e = PropertyRead recv nm \<longrightarrow> eh_name r = nm \<and> eh_arguments r = [])
      \<and> ((\<forall>recv args. e \<noteq> Call recv args) \<longrightarrow> (\<forall>recv nm. e \<noteq> PropertyRead recv nm) \<longrightarrow>
            eh_name r = [] \<and> eh_arguments r = [])"
proof (cases e)
  case (Call recv args)
  then show ?thesis by (cases recv) simp_all
qed simp_all

text \<open>
  Claim C8, amended. \<^verbatim>\<open>getEventHandlers\<close> returns, in the order of the visits and for each
  visited element in the order of its outputs, a record for every event binding whose
  handler is an \<^verbatim>\<open>ASTWithSource\<close> (and fails when the traversal fails); event bindings of
  elements that the traversal does not visit give no record. The record has the
  stringified handler as full text and the span of the binding. A call whose receiver is
  a property read yields the name of that property and the stringified arguments in
  order; a call with any other receiver yields an empty name and the stringified
  arguments in order; a bare property read yields its name and no argument; any other
  shape yields an empty name and no argument. On
  \<^verbatim>\<open><button (click)="save($event)">x</button>\<close> the result is one record, with name
  \<^verbatim>\<open>save\<close> and one argument, the stringified \<^verbatim>\<open>$event\<close>.
\<close>

theorem getEventHandlers_records:
  "getEventHandlers ts nodes =
     (case visit_order nodes of Inl err \<Rightarrow> Inl err
      | Inr vs \<Rightarrow> Inr (concat (map (handlers_of ts) vs)))
   \<and> (\<exists>r. analyzeEventHandler ts (ev, ASTWithSource e src loc, sp) = Some r
        \<and> eh_fullText r = ts (ASTWithSource e src loc) \<and> eh_sourceSpan r = sp
        \<and> (\<forall>recv nm args. e = Call (PropertyRead recv nm) args \<longrightarrow>
              eh_name r = nm \<and> eh_arguments r = map ts args)
        \<and> (\<forall>recv args. e = Call recv args \<longrightarrow> (\<forall>r' nm. recv \<noteq> PropertyRead r' nm) \<longrightarrow>
              eh_name r = [] \<and> eh_arguments r = map ts args)
        \<and> (\<forall>recv nm. e = PropertyRead recv nm \<longrightarrow> eh_name r = nm \<and> eh_arguments r = [])
        \<and> ((\<forall>recv args. e \<noteq> Call recv args) \<longrightarrow> (\<forall>recv nm. e \<noteq> PropertyRead recv nm) \<longrightarrow>
              eh_name r = [] \<and> eh_arguments r = []))
   \<and> getEventHandlers ts
        [Element ''button'' [] []
           [(''click'',
             ASTWithSource (Call (PropertyRead (Some ImplicitReceiver) ''save'')
                                 [PropertyRead (Some ImplicitReceiver) ''$event''])
               (Some ''save($event)'') location,
             span)]
           [Text ''x'']]
      = Inr [\<lparr>eh_name = ''save'',
               eh_arguments = [ts (PropertyRead (Some ImplicitReceiver) ''$event'')],
               eh_fullText = ts (ASTWithSource (Call (PropertyRead (Some ImplicitReceiver) ''save'')
                                 [PropertyRead (Some ImplicitReceiver) ''$event''])
                                (Some ''save($event)'') location),
               eh_sourceSpan = span\<rparr>]"
proof (intro conjI)
  have "getEventHandlers ts nodes =
      (case visit_order nodes of Inl e \<Rightarrow> Inl e
       | Inr vs \<Rightarrow> Inr (fold (getEventHandlers_visitor ts) vs []))"
    unfolding getEventHandlers_def traverseNodes_def by (rule traverse_pure)
  then show "getEventHandlers ts nodes =
     (case visit_order nodes of Inl err \<Rightarrow> Inl err
      | Inr vs \<Rightarrow> Inr (concat (map (handlers_of ts) vs)))"
    by (simp add: fold_getEventHandlers_visitor cong: sum.case_cong)
  show "\<exists>r. analyzeEventHandler ts (ev, ASTWithSource e src loc, sp) = Some r
        \<and> eh_fullText r = ts (ASTWithSource e src loc) \<and> eh_sourceSpan r = sp
        \<and> (\<forall>recv nm args. e = Call (PropertyRead recv nm) args \<longrightarrow>
              eh_name r = nm \<and> eh_arguments r = map ts args)
        \<and> (\<forall>recv args. e = Call recv args \<longrightarrow> (\<forall>r' nm. recv \<noteq> PropertyRead r' nm) \<longrightarrow>
              eh_name r = [] \<and> eh_arguments r = map ts args)
        \<and> (\<forall>recv nm. e = PropertyRead recv nm \<longrightarrow> eh_name r = nm \<and> eh_arguments r = [])
        \<and> ((\<forall>recv args. e \<noteq> Call recv args) \<longrightarrow> (\<forall>recv nm. e \<noteq> PropertyRead recv nm) \<longrightarrow>
              eh_name r = [] \<and> eh_arguments r = [])"
    by (rule analyzeEventHandler_Some)
  show "getEventHandlers ts
        [Element ''button'' [] []
           [(''click'',
             ASTWithSource (Call (PropertyRead (Some ImplicitReceiver) ''save'')
                                 [PropertyRead (Some ImplicitReceiver) ''$event''])
               (Some ''save($event)'') location,
             span)]
           [Text ''x'']]
      = Inr [\<lparr>eh_name = ''save'',
               eh_arguments = [ts (PropertyRead (Some ImplicitReceiver) ''$event'')],
               eh_fullText = ts (ASTWithSource (Call (PropertyRead (Some ImplicitReceiver) ''save'')
                                 [PropertyRead (Some ImplicitReceiver) ''$event''])
                                (Some ''save($event)'') location),
               eh_sourceSpan = span\<rparr>]"
    by (simp add: getEventHandlers_def traverseNodes_def traverse_loop.simps pushed_simps
        getEventHandlers_visitor_def is_element_iff push_each_def)
qed

text \<open>
  Claim C8, amended, on \<^verbatim>\<open><button (click)="save($event)">x</button>\<close> with the compiler's
  \<^verbatim>\<open>toString\<close>: the handler is a call whose receiver is a property read.
\<close>

theorem getEventHandlers_records_witness:
  "visit_order
     [Element ''button'' [] []
        [(''click'',
          ASTWithSource (Call (PropertyRead (Some ImplicitReceiver) ''save'')
                              [PropertyRead (Some ImplicitReceiver) ''$event''])
            (Some ''save($event)'') ''test.html@0:16'',
          (8, 29))]
        [Text ''x'']]
     = Inr [Element ''button'' [] []
              [(''click'',
                ASTWithSource (Call (PropertyRead (Some ImplicitReceiver) ''save'')
                                    [PropertyRead (Some ImplicitReceiver) ''$event''])
                  (Some ''save($event)'') ''test.html@0:16'',
                (8, 29))]
              [Text ''x''],
            Text ''x'']
   \<and> getEventHandlers AST_toString
       [Element ''button'' [] []
          [(''click'',
            ASTWithSource (Call (PropertyRead (Some ImplicitReceiver) ''save'')
                                [PropertyRead (Some ImplicitReceiver) ''$event''])
              (Some ''save($event)'') ''test.html@0:16'',
            (8, 29))]
          [Text ''x'']]
     = Inr [\<lparr>eh_name = ''save'', eh_arguments = [''AST''],
              eh_fullText = ''save($event) in test.html@0:16'', eh_sourceSpan = (8, 29)\<rparr>]
   \<and> (\<exists>r. analyzeEventHandler AST_toString
          (''click'',
           ASTWithSource (Call (PropertyRead (Some ImplicitReceiver) ''save'')
                               [PropertyRead (Some ImplicitReceiver) ''$event''])
             (Some ''save($event)'') ''test.html@0:16'',
           (8, 29)) = Some r
        \<and> eh_name r = ''save'' \<and> eh_arguments r = [''AST''])"
proof -
  let ?e = "Call (PropertyRead (Some ImplicitReceiver) ''save'')
                 [PropertyRead (Some ImplicitReceiver) ''$event'']"
  let ?b = "Element ''button'' [] []
        [(''click'', ASTWithSource ?e (Some ''save($event)'') ''test.html@0:16'', (8, 29))]
        [Text ''x'']"
  note th = getEventHandlers_records [where ts = AST_toString and nodes = "[?b]"
      and ev = "''click''" and e = ?e and src = "Some ''save($event)''" and loc = "''test.html@0:16''"
      and sp = "(8, 29)" and location = "''test.html@0:16''" and span = "(8, 29)"]
  have v: "visit_order [?b] = Inr [?b, Text ''x'']"
    by (simp add: visit_order_def traverseNodes_def traverse_loop.simps pushed_simps)
  from th have "getEventHandlers AST_toString [?b] =
      (case visit_order [?b] of Inl err \<Rightarrow> Inl err
       | Inr vs \<Rightarrow> Inr (concat (map (handlers_of AST_toString) vs)))"
    by (rule conjunct1)
  then have g: "getEventHandlers AST_toString [?b]
      = Inr [\<lparr>eh_name = ''save'', eh_arguments = [''AST''],
               eh_fullText = ''save($event) in test.html@0:16'', eh_sourceSpan = (8, 29)\<rparr>]"
    unfolding v by (simp add: List.map_filter_simps)
  from th obtain r where r: "analyzeEventHandler AST_toString
          (''click'', ASTWithSource ?e (Some ''save($event)'') ''test.html@0:16'', (8, 29)) = Some r"
    and s: "\<forall>recv nm args. ?e = Call (PropertyRead recv nm) args \<longrightarrow>
              eh_name r = nm \<and> eh_arguments r = map AST_toString args"
    by blast
  from s have "eh_name r = ''save'' \<and> eh_arguments r = [''AST'']" by simp
  with v g r show ?thesis by blast
qed

text \<open>
  Claim C9 says that the dependencies of an expression are exactly the names of its
  property reads on the implicit receiver. On \<^verbatim>\<open>@if (a && b) { <div>x</div> }\<close> the code
  returns a record without referenced properties: \<^verbatim>\<open>traverseAST\<close> enters the arguments and
  the receiver of a call and the receiver of a property read, and no other expression, so
  the reads of \<^verbatim>\<open>a\<close> and \<^verbatim>\<open>b\<close> below the binary operation are not collected.
\<close>

theorem getControlFlowExpressions_misses_operands:
  "getControlFlowExpressions AST_toString
     [IfBlock (0, 30)
        [(Some (ASTWithSource
             (OtherAST ''Binary''
                [PropertyRead (Some ImplicitReceiver) ''a'', PropertyRead (Some ImplicitReceiver) ''b''])
             (Some ''a && b'') ''test.html@0:5''),
          [Element ''div'' [] [] [] [Text ''x'']])]]
   = Inr [\<lparr>cf_type = ''if'', cf_expression = ''a && b in test.html@0:5'',
            cf_referencedProperties = [], cf_sourceSpan = (0, 30)\<rparr>]"
  by (simp add: getControlFlowExpressions_def traverseNodes_def traverse_loop.simps pushed_simps
      analyzeExpression_def referenced_def)

subsection \<open>Deferred blocks\<close>

text \<open>
  \<open>strip_defer\<close> empties every \<^verbatim>\<open>@defer\<close> block of a node, at any depth: its children and
  its placeholder, loading and error blocks.
\<close>

fun strip_defer :: "node \<Rightarrow> node" where
  "strip_defer (Element nm ats ins outs cs) = Element nm ats ins outs (map strip_defer cs)"
| "strip_defer (Template cs) = Template (map strip_defer cs)"
| "strip_defer (IfBlock sp bs) = IfBlock sp (map (\<lambda>(e, chs). (e, map strip_defer chs)) bs)"
| "strip_defer (ForLoopBlock sp e cs em) =
     ForLoopBlock sp e (map strip_defer cs) (map_option (map strip_defer) em)"
| "strip_defer (SwitchBlock sp e css) =
     SwitchBlock sp e (map (\<lambda>(e, s, chs). (e, s, map strip_defer chs)) css)"
| "strip_defer (SwitchBlockCase sp e cs) = SwitchBlockCase sp e (map strip_defer cs)"
| "strip_defer (DeferredBlock cs pl lo er) = DeferredBlock [] None None None"
| "strip_defer (DeferredBlockPlaceholder cs) = DeferredBlockPlaceholder []"
| "strip_defer (DeferredBlockLoading cs) = DeferredBlockLoading []"
| "strip_defer (DeferredBlockError cs) = DeferredBlockError []"
| "strip_defer n = n"

lemma concat_strip_branches:
  "concat (map (\<lambda>(expression, chs). chs) (map (\<lambda>(e, chs). (e, map strip_defer chs)) bs))
     = map strip_defer (concat (map (\<lambda>(expression, chs). chs) bs))"
  by (induction bs) auto

lemma concat_strip_cases:
  "concat (map (\<lambda>(expression, sourceSpan, chs). chs)
       (map (\<lambda>(e, s, chs). (e, s, map strip_defer chs)) css))
     = map strip_defer (concat (map (\<lambda>(expression, sourceSpan, chs). chs) css))"
  by (induction css) auto

lemma pushed_strip_defer: "pushed (strip_defer n) = map_sum id (map strip_defer) (pushed n)"
  by (cases n) (simp_all add: pushed_simps concat_strip_branches concat_strip_cases del: map_map)

lemma traverse_strip_defer:
  assumes "\<And>n acc. v' (strip_defer n) (g acc) = map_sum id g (v n acc)"
  shows "traverse_loop v' (map strip_defer stack) (g acc) = map_sum id g (traverse_loop v stack acc)"
proof (induction stack arbitrary: acc rule: stack_induct)
  case Nil
  then show ?case by (simp add: traverse_loop_Nil)
next
  case (snoc xs n)
  show ?case
  proof (cases "v n acc")
    case (Inl e)
    with assms [of n acc] show ?thesis
      by (simp add: traverse_loop_snoc)
  next
    case (Inr acc1)
    note v = this
    show ?thesis
    proof (cases "pushed n")
      case (Inl e)
      with v assms [of n acc] show ?thesis
        by (simp add: traverse_loop_snoc pushed_strip_defer)
    next
      case (Inr cs)
      with v assms [of n acc] snoc [OF Inr, of acc1] show ?thesis
        by (simp add: traverse_loop_snoc pushed_strip_defer)
    qed
  qed
qed

lemma traverse_strip_defer_pure:
  assumes "\<And>n acc. f (strip_defer n) acc = f n acc"
  shows "traverse_loop (\<lambda>n a. Inr (f n a)) (map strip_defer stack) acc
       = traverse_loop (\<lambda>n a. Inr (f n a)) stack acc"
  using traverse_strip_defer [where v' = "\<lambda>n a. Inr (f n a)" and v = "\<lambda>n a. Inr (f n a)"
      and g = id and stack = stack and acc = acc]
  by (simp add: assms sum.map_id)

lemma is_element_strip [simp]: "is_element (strip_defer n) = is_element n"
  by (cases n) (simp_all add: is_element_iff)

lemma is_boundText_strip [simp]: "is_boundText (strip_defer n) = is_boundText n"
  by (cases n) (simp_all add: is_boundText_iff)

lemma element_info_strip: "element_info (strip_defer n) = element_info n"
  by (cases n) simp_all

lemma matchesSelector_strip: "matchesSelector (strip_defer n) sel = matchesSelector n sel"
  by (simp add: matchesSelector_def element_info_strip cong: sum.case_cong)

lemma findElements_visitor_strip:
  "findElements_visitor sel (strip_defer n) (map strip_defer acc)
     = map_sum id (map strip_defer) (findElements_visitor sel n acc)"
  by (simp add: findElements_visitor_def matchesSelector_strip split: sum.splits)

lemma findInterpolations_visitor_strip:
  "findInterpolations_visitor (strip_defer n) (map strip_defer acc)
     = map strip_defer (findInterpolations_visitor n acc)"
  by (simp add: findInterpolations_visitor_def)

lemma getBindingDependencies_visitor_strip:
  "getBindingDependencies_visitor ts (strip_defer n) acc = getBindingDependencies_visitor ts n acc"
  by (cases n)
    (simp_all add: getBindingDependencies_visitor_def is_propertyBinding_iff is_eventBinding_iff
      is_boundText_iff)

lemma getEventHandlers_visitor_strip:
  "getEventHandlers_visitor ts (strip_defer n) acc = getEventHandlers_visitor ts n acc"
  by (cases n) (simp_all add: getEventHandlers_visitor_def is_element_iff)

lemma getPropertyBindings_visitor_strip:
  "getPropertyBindings_visitor ts (strip_defer n) acc = getPropertyBindings_visitor ts n acc"
  by (cases n) (simp_all add: getPropertyBindings_visitor_def is_element_iff)

lemma getControlFlowExpressions_visitor_strip:
  "getControlFlowExpressions_visitor ts (strip_defer n) acc
     = getControlFlowExpressions_visitor ts n acc"
proof (cases n)
  case (IfBlock sp bs)
  have "first_branch_expression (map (\<lambda>(e, chs). (e, map strip_defer chs)) bs)
      = first_branch_expression bs"
    by (cases bs) auto
  with IfBlock show ?thesis by simp
qed simp_all

text \<open>
  Claim C10. The traversal pushes nodes only after an element, a template, an \<^verbatim>\<open>@if\<close>
  block, a \<^verbatim>\<open>@for\<close> block or a \<^verbatim>\<open>@switch\<close> block, and nothing after a \<^verbatim>\<open>@defer\<close> block. So
  the visits, and what \<^verbatim>\<open>findElements\<close>, \<^verbatim>\<open>findInterpolations\<close>, \<^verbatim>\<open>getPropertyBindings\<close>,
  \<^verbatim>\<open>getEventHandlers\<close>, \<^verbatim>\<open>getBindingDependencies\<close> and \<^verbatim>\<open>getControlFlowExpressions\<close>
  return, are those of the template with every \<^verbatim>\<open>@defer\<close> block emptied: nothing inside
  a \<^verbatim>\<open>@defer\<close> block is visited or returned. (A returned node may hold a \<^verbatim>\<open>@defer\<close> block
  below it, so the node lists are compared after emptying these.)
\<close>

theorem defer_contents_not_visited:
  "(pushed n = Inr ps \<longrightarrow> ps \<noteq> [] \<longrightarrow>
      is_element n \<or> is_template n \<or> is_ifBlock n \<or> is_forBlock n \<or> is_switchBlock n)
   \<and> pushed (DeferredBlock cs pl lo er) = Inr []
   \<and> visit_order (map strip_defer nodes) = map_sum id (map strip_defer) (visit_order nodes)
   \<and> findElements sel (map strip_defer nodes) = map_sum id (map strip_defer) (findElements sel nodes)
   \<and> findInterpolations (map strip_defer nodes)
       = map_sum id (map strip_defer) (findInterpolations nodes)
   \<and> getPropertyBindings ts (map strip_defer nodes) = getPropertyBindings ts nodes
   \<and> getEventHandlers ts (map strip_defer nodes) = getEventHandlers ts nodes
   \<and> getBindingDependencies ts (map strip_defer nodes) = getBindingDependencies ts nodes
   \<and> getControlFlowExpressions ts (map strip_defer nodes) = getControlFlowExpressions ts nodes"
proof (intro conjI)
  show "pushed n = Inr ps \<longrightarrow> ps \<noteq> [] \<longrightarrow>
      is_element n \<or> is_template n \<or> is_ifBlock n \<or> is_forBlock n \<or> is_switchBlock n"
    by (cases n)
      (simp_all add: pushed_simps is_element_iff is_template_iff is_ifBlock_iff is_forBlock_iff
        is_switchBlock_iff)
  show "pushed (DeferredBlock cs pl lo er) = Inr []" by (simp add: pushed_simps)
  show "visit_order (map strip_defer nodes) = map_sum id (map strip_defer) (visit_order nodes)"
    unfolding visit_order_def traverseNodes_def
    using traverse_strip_defer [where v' = "\<lambda>n acc. Inr (acc @ [n])" and v = "\<lambda>n acc. Inr (acc @ [n])"
        and g = "map strip_defer" and stack = nodes and acc = "[]"]
    by simp
  show "findElements sel (map strip_defer nodes) = map_sum id (map strip_defer) (findElements sel nodes)"
    unfolding findElements_def traverseNodes_def
    using traverse_strip_defer [where v' = "findElements_visitor sel" and v = "findElements_visitor sel"
        and g = "map strip_defer" and stack = nodes and acc = "[]"]
    by (simp add: findElements_visitor_strip)
  show "findInterpolations (map strip_defer nodes)
       = map_sum id (map strip_defer) (findInterpolations nodes)"
    unfolding findInterpolations_def traverseNodes_def
    using traverse_strip_defer [where v' = "\<lambda>n acc. Inr (findInterpolations_visitor n acc)"
        and v = "\<lambda>n acc. Inr (findInterpolations_visitor n acc)"
        and g = "map strip_defer" and stack = nodes and acc = "[]"]
    by (simp add: findInterpolations_visitor_strip)
  show "getPropertyBindings ts (map strip_defer nodes) = getPropertyBindings ts nodes"
    unfolding getPropertyBindings_def traverseNodes_def
    by (rule traverse_strip_defer_pure) (rule getPropertyBindings_visitor_strip)
  show "getEventHandlers ts (map strip_defer nodes) = getEventHandlers ts nodes"
    unfolding getEventHandlers_def traverseNodes_def
    by (rule traverse_strip_defer_pure) (rule getEventHandlers_visitor_strip)
  show "getBindingDependencies ts (map strip_defer nodes) = getBindingDependencies ts nodes"
    unfolding getBindingDependencies_def traverseNodes_def
    by (rule traverse_strip_defer_pure) (rule getBindingDependencies_visitor_strip)
  show "getControlFlowExpressions ts (map strip_defer nodes) = getControlFlowExpressions ts nodes"
    unfolding getControlFlowExpressions_def traverseNodes_def
    by (rule traverse_strip_defer_pure) (rule getControlFlowExpressions_visitor_strip)
qed

text \<open>
  Claim C10 on \<^verbatim>\<open>@defer { <div (click)="go">{{a}}</div> } @placeholder { <div></div> }\<close>.
\<close>

theorem defer_contents_not_visited_witness:
  "findElements ''div''
     [DeferredBlock
        [Element ''div'' [] []
           [(''click'', ASTWithSource (PropertyRead (Some ImplicitReceiver) ''go'') (Some ''go'') ''test.html@0:25'', (9, 21))]
           [BoundText (ASTWithSource (PropertyRead (Some ImplicitReceiver) ''a'') (Some ''a'') ''test.html@0:29'')]]
        (Some [Element ''div'' [] [] [] []]) None None] = Inr []
   \<and> getEventHandlers AST_toString
     [DeferredBlock
        [Element ''div'' [] []
           [(''click'', ASTWithSource (PropertyRead (Some ImplicitReceiver) ''go'') (Some ''go'') ''test.html@0:25'', (9, 21))]
           [BoundText (ASTWithSource (PropertyRead (Some ImplicitReceiver) ''a'') (Some ''a'') ''test.html@0:29'')]]
        (Some [Element ''div'' [] [] [] []]) None None] = Inr []"
proof -
  let ?t = "[DeferredBlock
        [Element ''div'' [] []
           [(''click'', ASTWithSource (PropertyRead (Some ImplicitReceiver) ''go'') (Some ''go'') ''test.html@0:25'', (9, 21))]
           [BoundText (ASTWithSource (PropertyRead (Some ImplicitReceiver) ''a'') (Some ''a'') ''test.html@0:29'')]]
        (Some [Element ''div'' [] [] [] []]) None None]"
  note th = defer_contents_not_visited [where nodes = ?t and sel = "''div''" and ts = AST_toString
      and cs = "[]" and pl = None and lo = None and er = None
      and n = "Text ''x''" and ps = "[]"]
  have s: "map strip_defer ?t = [DeferredBlock [] None None None]" by simp
  have "findElements ''div'' (map strip_defer ?t) = Inr []"
    unfolding s
    by (simp add: findElements_def traverseNodes_def traverse_loop.simps pushed_simps
        findElements_visitor_def is_element_iff)
  with th have "map_sum id (map strip_defer) (findElements ''div'' ?t) = Inr []" by simp
  then have f: "findElements ''div'' ?t = Inr []" by (cases "findElements ''div'' ?t") auto
  have "getEventHandlers AST_toString (map strip_defer ?t) = Inr []"
    unfolding s
    by (simp add: getEventHandlers_def traverseNodes_def traverse_loop.simps pushed_simps
        getEventHandlers_visitor_def is_element_iff)
  with th have g: "getEventHandlers AST_toString ?t = Inr []" by simp
  from f g show ?thesis by (rule conjI)
qed

section \<open>The scan of a selector string\<close>

text \<open>
  The matches that successive calls of \<^verbatim>\<open>exec\<close> find in a string, in order, and the loop
  of \<^verbatim>\<open>parse\<close> on them.
\<close>

function scan :: "string \<Rightarrow> rmatch list" where
  "scan s = (case exec s of None \<Rightarrow> [] | Some (m, rest) \<Rightarrow> m # scan rest)"
  by pat_completeness auto
termination
  by (relation "measure length") (auto dest: exec_shorter)

fun steps :: "pstate \<Rightarrow> rmatch list \<Rightarrow> error + pstate" where
  "steps st [] = Inr st"
| "steps st (m # ms) = (case parse_step st m of Inl e \<Rightarrow> Inl e | Inr st' \<Rightarrow> steps st' ms)"

text \<open>
  Whether a negated group is open: \<^verbatim>\<open>:not(\<close> opens one and \<^verbatim>\<open>)\<close> closes it.
  \<open>offence_at ms i\<close> says that the match at index \<open>i\<close> of the scan \<open>ms\<close> is a \<^verbatim>\<open>:not(\<close> or a
  comma met while a negated group is open. \<open>first_offence\<close> reads the scan from left to
  right and returns the error of the first such match.
\<close>

fun group_step :: "rmatch \<Rightarrow> bool \<Rightarrow> bool" where
  "group_step MNot b = True"
| "group_step MClose b = False"
| "group_step _ b = b"

definition offence_from :: "bool \<Rightarrow> rmatch list \<Rightarrow> nat \<Rightarrow> bool" where
  "offence_from b ms i =
     (i < length ms \<and> (ms ! i = MNot \<or> ms ! i = MComma) \<and> fold group_step (take i ms) b)"

definition offence_at :: "rmatch list \<Rightarrow> nat \<Rightarrow> bool" where
  "offence_at ms i = offence_from False ms i"

fun first_offence :: "bool \<Rightarrow> rmatch list \<Rightarrow> error option" where
  "first_offence b [] = None"
| "first_offence b (MNot # ms) = (if b then Some NestingNot else first_offence True ms)"
| "first_offence b (MComma # ms) = (if b then Some MultipleInNot else first_offence b ms)"
| "first_offence b (MClose # ms) = first_offence False ms"
| "first_offence b (m # ms) = first_offence b ms"

declare scan.simps [simp del]
declare parse_loop.simps [simp del]

lemma parse_loop_None:
  "exec s = None \<Longrightarrow> parse_loop st s = Inr (results st @ [cssSelector st])"
  by (subst parse_loop.simps) simp

lemma parse_loop_Some:
  "exec s = Some (m, rest) \<Longrightarrow>
   parse_loop st s = (case parse_step st m of Inl e \<Rightarrow> Inl e | Inr st' \<Rightarrow> parse_loop st' rest)"
  by (subst parse_loop.simps) simp

lemma scan_None: "exec s = None \<Longrightarrow> scan s = []"
  by (subst scan.simps) simp

lemma scan_Some: "exec s = Some (m, rest) \<Longrightarrow> scan s = m # scan rest"
  by (subst scan.simps) simp

lemma parse_loop_steps:
  "parse_loop st s =
     (case steps st (scan s) of Inl e \<Rightarrow> Inl e
      | Inr st' \<Rightarrow> Inr (results st' @ [cssSelector st']))"
proof (induction st s rule: parse_loop.induct)
  case (1 st s)
  show ?case
  proof (cases "exec s")
    case None
    then show ?thesis
      by (simp add: parse_loop_None scan_None)
  next
    case (Some a)
    obtain m rest where a: "a = (m, rest)" by (cases a)
    from Some a have ex: "exec s = Some (m, rest)" by simp
    show ?thesis
    proof (cases "parse_step st m")
      case (Inl e)
      then show ?thesis
        by (simp add: parse_loop_Some [OF ex] scan_Some [OF ex])
    next
      case (Inr st')
      have "parse_loop st' rest = (case steps st' (scan rest) of Inl e \<Rightarrow> Inl e
          | Inr st'' \<Rightarrow> Inr (results st'' @ [cssSelector st'']))"
        using ex Inr by (rule "1.IH" [OF _ refl])
      with Inr show ?thesis
        by (simp add: parse_loop_Some [OF ex] scan_Some [OF ex])
    qed
  qed
qed

lemma inNot_on_current [simp]: "inNot (on_current f st) = inNot st"
  by (simp add: on_current_def split: cur_ref.splits)

lemma first_offence_step:
  "\<not> ((m = MNot \<or> m = MComma) \<and> b) \<Longrightarrow> first_offence b (m # ms) = first_offence (group_step m b) ms"
  by (cases m) auto

lemma first_offence_now:
  "(m = MNot \<or> m = MComma) \<and> b \<Longrightarrow>
   first_offence b (m # ms) = Some (if m = MNot then NestingNot else MultipleInNot)"
  by (cases m) auto

lemma parse_step_ok:
  "\<not> ((m = MNot \<or> m = MComma) \<and> inNot st) \<Longrightarrow>
   \<exists>st'. parse_step st m = Inr st' \<and> inNot st' = group_step m (inNot st)"
  by (cases m) auto

lemma parse_step_err:
  "(m = MNot \<or> m = MComma) \<and> inNot st \<Longrightarrow>
   parse_step st m = Inl (if m = MNot then NestingNot else MultipleInNot)"
  by (cases m) auto

lemma steps_first_offence:
  "steps st ms = Inl e \<longleftrightarrow> first_offence (inNot st) ms = Some e"
proof (induction ms arbitrary: st)
  case Nil
  show ?case by simp
next
  case (Cons m ms)
  show ?case
  proof (cases "(m = MNot \<or> m = MComma) \<and> inNot st")
    case True
    from parse_step_err [OF True] first_offence_now [OF True, of ms]
    show ?thesis by auto
  next
    case False
    from parse_step_ok [OF False] obtain st' where s: "parse_step st m = Inr st'"
      and i: "inNot st' = group_step m (inNot st)" by blast
    from first_offence_step [OF False, of ms] s i Cons.IH [of st']
    show ?thesis by simp
  qed
qed

lemma steps_total:
  "first_offence (inNot st) ms = None \<Longrightarrow> \<exists>st'. steps st ms = Inr st'"
  using steps_first_offence [of st ms] by (cases "steps st ms") auto

lemma of_char_lower:
  "(of_char (lower_char c) :: nat) =
     (if (65 \<le> (of_char c :: nat) \<and> (of_char c :: nat) \<le> 90)
         \<or> (192 \<le> (of_char c :: nat) \<and> (of_char c :: nat) \<le> 222 \<and> (of_char c :: nat) \<noteq> 215)
      then of_char c + 32 else of_char c)"
  by (auto simp: lower_char_def Let_def)

lemma lower_char_idem: "lower_char (lower_char c) = lower_char c"
  unfolding lower_char_def [of "lower_char c"] of_char_lower Let_def
  by auto

lemma toLowerCase_idem: "toLowerCase (toLowerCase s) = toLowerCase s"
  by (simp add: toLowerCase_def lower_char_idem)

lemma char_eq_iff_of_char: "(c = d) = ((of_char c :: nat) = of_char d)"
  by auto

lemma tag_char_code:
  "tag_char c \<longleftrightarrow> (of_char c :: nat) = 45 \<or> (48 \<le> (of_char c :: nat) \<and> (of_char c :: nat) \<le> 57)
     \<or> (65 \<le> (of_char c :: nat) \<and> (of_char c :: nat) \<le> 90) \<or> (of_char c :: nat) = 95
     \<or> (97 \<le> (of_char c :: nat) \<and> (of_char c :: nat) \<le> 122)"
  unfolding tag_char_def is_word_def Let_def char_eq_iff_of_char [of c "CHR ''-''"] by simp

lemma value_char_code:
  "value_char c \<longleftrightarrow> (of_char c :: nat) \<noteq> 93 \<and> (of_char c :: nat) \<noteq> 34 \<and> (of_char c :: nat) \<noteq> 39"
  unfolding value_char_def is_quote_def char_eq_iff_of_char [of c "CHR '']''"]
    char_eq_iff_of_char [of c "CHR 0x22"] char_eq_iff_of_char [of c "CHR 0x27"] by simp

lemma attr_char_code:
  "attr_char c \<longleftrightarrow> (of_char c :: nat) = 45 \<or> (of_char c :: nat) = 46
     \<or> (48 \<le> (of_char c :: nat) \<and> (of_char c :: nat) \<le> 57)
     \<or> (65 \<le> (of_char c :: nat) \<and> (of_char c :: nat) \<le> 90) \<or> (of_char c :: nat) = 95
     \<or> (97 \<le> (of_char c :: nat) \<and> (of_char c :: nat) \<le> 122)
     \<or> (of_char c :: nat) = 42 \<or> (of_char c :: nat) = 92 \<or> (of_char c :: nat) = 36"
  unfolding attr_char_def is_word_def Let_def char_eq_iff_of_char [of c "CHR ''-''"]
    char_eq_iff_of_char [of c "CHR ''.''"] char_eq_iff_of_char [of c "CHR ''*''"]
    char_eq_iff_of_char [of c "CHR 0x5C"] char_eq_iff_of_char [of c "CHR ''$''"]
  by auto

lemma tag_char_lower: "tag_char c \<Longrightarrow> tag_char (lower_char c)"
  unfolding tag_char_code of_char_lower by auto

lemma value_char_lower: "value_char c \<Longrightarrow> value_char (lower_char c)"
  unfolding value_char_code of_char_lower by auto

lemma tag_char_value_char: "tag_char c \<Longrightarrow> value_char c"
  unfolding tag_char_code value_char_code by auto

lemma tag_char_attr_char: "tag_char c \<Longrightarrow> attr_char c"
  unfolding tag_char_code attr_char_code by auto

lemma offence_from_0: "offence_from b (m # ms) 0 \<longleftrightarrow> (m = MNot \<or> m = MComma) \<and> b"
  by (simp add: offence_from_def)

lemma offence_from_Suc: "offence_from b (m # ms) (Suc i) \<longleftrightarrow> offence_from (group_step m b) ms i"
  by (simp add: offence_from_def)

lemma all_nat_0_Suc: "(\<forall>i. P i) \<longleftrightarrow> P 0 \<and> (\<forall>i. P (Suc i))"
  by (metis nat.exhaust)

lemma first_offence_None_iff: "first_offence b ms = None \<longleftrightarrow> (\<forall>i. \<not> offence_from b ms i)"
proof (induction ms arbitrary: b)
  case Nil
  show ?case by (simp add: offence_from_def)
next
  case (Cons m ms)
  show ?case
  proof (cases "(m = MNot \<or> m = MComma) \<and> b")
    case True
    have "offence_from b (m # ms) 0" using True by (simp add: offence_from_0)
    with first_offence_now [OF True, of ms] show ?thesis by auto
  next
    case False
    have "(\<forall>i. \<not> offence_from b (m # ms) i) \<longleftrightarrow> (\<forall>i. \<not> offence_from (group_step m b) ms i)"
      by (subst all_nat_0_Suc) (simp add: offence_from_0 offence_from_Suc False)
    with first_offence_step [OF False, of ms] Cons.IH [of "group_step m b"]
    show ?thesis by simp
  qed
qed

lemma first_offence_Some:
  "first_offence b ms = Some e \<Longrightarrow>
   \<exists>i. offence_from b ms i \<and> (\<forall>j<i. \<not> offence_from b ms j)
       \<and> e = (if ms ! i = MNot then NestingNot else MultipleInNot)"
proof (induction ms arbitrary: b)
  case Nil
  then show ?case by simp
next
  case (Cons m ms)
  show ?case
  proof (cases "(m = MNot \<or> m = MComma) \<and> b")
    case True
    have "offence_from b (m # ms) 0" using True by (simp add: offence_from_0)
    moreover have "e = (if (m # ms) ! 0 = MNot then NestingNot else MultipleInNot)"
      using first_offence_now [OF True, of ms] Cons.prems by simp
    ultimately show ?thesis by blast
  next
    case False
    with Cons.prems first_offence_step [OF False, of ms]
    have "first_offence (group_step m b) ms = Some e" by simp
    from Cons.IH [OF this] obtain i where i: "offence_from (group_step m b) ms i"
      and first: "\<forall>j<i. \<not> offence_from (group_step m b) ms j"
      and e: "e = (if ms ! i = MNot then NestingNot else MultipleInNot)" by blast
    have "offence_from b (m # ms) (Suc i)" using i by (simp add: offence_from_Suc)
    moreover have "\<forall>j<Suc i. \<not> offence_from b (m # ms) j"
    proof (intro allI impI)
      fix j assume "j < Suc i"
      then show "\<not> offence_from b (m # ms) j"
        using first False by (cases j) (simp_all add: offence_from_0 offence_from_Suc)
    qed
    moreover have "e = (if (m # ms) ! Suc i = MNot then NestingNot else MultipleInNot)"
      using e by simp
    ultimately show ?thesis by blast
  qed
qed

lemma parse_Inl_iff: "parse s = Inl e \<longleftrightarrow> first_offence False (scan s) = Some e"
proof -
  have "inNot init_pstate = False" by (simp add: init_pstate_def)
  with steps_first_offence [of init_pstate "scan s" e]
  show ?thesis
    by (auto simp: parse_def parse_loop_steps split: sum.splits)
qed

text \<open>
  Claim C6. \<^verbatim>\<open>parse\<close> fails exactly when the scan meets a \<^verbatim>\<open>:not(\<close> or a comma while a
  negated group is open; the error is the nesting error when the first such match is a
  \<^verbatim>\<open>:not(\<close> and the error for several selectors in \<^verbatim>\<open>:not\<close> when it is a comma; on every
  other string, whatever its characters, \<^verbatim>\<open>parse\<close> returns a list of selectors that is not
  empty.
\<close>

theorem parse_fails_exactly_on_offence:
  "((\<exists>e. parse s = Inl e) \<longleftrightarrow> (\<exists>i. offence_at (scan s) i))
   \<and> (parse s = Inl e \<longrightarrow>
        (\<exists>i. offence_at (scan s) i \<and> (\<forall>j<i. \<not> offence_at (scan s) j)
             \<and> e = (if scan s ! i = MNot then NestingNot else MultipleInNot)))
   \<and> ((\<forall>i. \<not> offence_at (scan s) i) \<longrightarrow> (\<exists>sels. parse s = Inr sels \<and> sels \<noteq> []))"
proof (intro conjI)
  have none: "(\<forall>e. parse s \<noteq> Inl e) \<longleftrightarrow> (\<forall>i. \<not> offence_at (scan s) i)"
    unfolding parse_Inl_iff offence_at_def
    using first_offence_None_iff [of False "scan s"] by auto
  then show "(\<exists>e. parse s = Inl e) \<longleftrightarrow> (\<exists>i. offence_at (scan s) i)" by blast
  show "parse s = Inl e \<longrightarrow>
        (\<exists>i. offence_at (scan s) i \<and> (\<forall>j<i. \<not> offence_at (scan s) j)
             \<and> e = (if scan s ! i = MNot then NestingNot else MultipleInNot))"
    unfolding parse_Inl_iff offence_at_def by (rule impI) (rule first_offence_Some)
  show "(\<forall>i. \<not> offence_at (scan s) i) \<longrightarrow> (\<exists>sels. parse s = Inr sels \<and> sels \<noteq> [])"
  proof
    assume "\<forall>i. \<not> offence_at (scan s) i"
    with none have "\<forall>e. parse s \<noteq> Inl e" by blast
    then obtain sels where p: "parse s = Inr sels" by (cases "parse s") auto
    then have "sels \<noteq> []"
      by (auto simp: parse_def parse_loop_steps split: sum.splits)
    with p show "\<exists>sels. parse s = Inr sels \<and> sels \<noteq> []" by blast
  qed
qed

lemmas exec_defs = match_here_def alt_not_def alt_tag_def alt_attr_def alt_attr_value_def
  alt_close_def alt_comma_def opt_quote_def tag_char_def attr_char_def value_char_def is_quote_def
  is_word_def is_space_def

text \<open>
  Claim C6 on \<^verbatim>\<open>:not(.a,b)\<close>, which has a comma in an open group, and on \<^verbatim>\<open>a@[\<close>, which has
  characters outside the grammar.
\<close>

theorem parse_fails_exactly_on_offence_witness:
  "(\<exists>i. offence_at (scan '':not(.a,b)'') i) \<and> (\<exists>e. parse '':not(.a,b)'' = Inl e)
   \<and> (\<forall>i. \<not> offence_at (scan ''a@['') i) \<and> (\<exists>sels. parse ''a@['' = Inr sels \<and> sels \<noteq> [])"
proof -
  have s1: "scan '':not(.a,b)'' = [MNot, MTag ''.a'' ''.'', MComma, MTag ''b'' [], MClose]"
    by (simp add: scan.simps exec_defs)
  have o1: "offence_at (scan '':not(.a,b)'') 2"
    unfolding s1 by (simp add: offence_at_def offence_from_def)
  then have e1: "\<exists>i. offence_at (scan '':not(.a,b)'') i" by blast
  have s2: "scan ''a@['' = [MTag ''a'' []]"
    by (simp add: scan.simps exec_defs)
  have o2: "\<forall>i. \<not> offence_at (scan ''a@['') i"
    unfolding s2 offence_at_def
    using first_offence_None_iff [of False "[MTag ''a'' []]"] by simp
  from parse_fails_exactly_on_offence [of "'':not(.a,b)''" NestingNot] e1
  have f: "\<exists>e. parse '':not(.a,b)'' = Inl e" by blast
  from parse_fails_exactly_on_offence [of "''a@[''" NestingNot] o2
  have g: "\<exists>sels. parse ''a@['' = Inr sels \<and> sels \<noteq> []" by blast
  from e1 f o2 g show ?thesis by blast
qed


section \<open>What a successful parse stores\<close>

text \<open>
  The texts that the expression can capture: a tag, class or id text is a non-empty run of
  word characters and hyphens, an attribute name a non-empty run of attribute characters,
  an attribute value a run of characters other than the closing bracket and the quotes.
  A selector is well formed when its parts are such texts, its class names and attribute
  values are lower-case, and its negated selectors are well formed and have no negated
  selectors of their own.
\<close>

definition lower_case :: "string \<Rightarrow> bool" where
  "lower_case s = (toLowerCase s = s)"

definition tag_text :: "string \<Rightarrow> bool" where
  "tag_text t = (t \<noteq> [] \<and> list_all tag_char t)"

definition class_ok :: "string \<Rightarrow> bool" where
  "class_ok k = (tag_text k \<and> lower_case k)"

definition name_ok :: "string \<Rightarrow> bool" where
  "name_ok n = (n \<noteq> [] \<and> list_all attr_char n)"

definition value_ok :: "string \<Rightarrow> bool" where
  "value_ok v = (list_all value_char v \<and> lower_case v)"

fun attrs_ok :: "string list \<Rightarrow> bool" where
  "attrs_ok [] = True"
| "attrs_ok [n] = False"
| "attrs_ok (n # v # rest) = (name_ok n \<and> value_ok v \<and> attrs_ok rest)"

definition flat_ok :: "CssSelector \<Rightarrow> bool" where
  "flat_ok c = ((case element c of None \<Rightarrow> True | Some t \<Rightarrow> tag_text t)
     \<and> list_all class_ok (classNames c) \<and> attrs_ok (attrs c))"

definition inner_ok :: "CssSelector \<Rightarrow> bool" where
  "inner_ok n = (flat_ok n \<and> notSelectors n = [])"

definition sel_ok :: "CssSelector \<Rightarrow> bool" where
  "sel_ok c = (flat_ok c \<and> list_all inner_ok (notSelectors c))"

fun match_ok :: "rmatch \<Rightarrow> bool" where
  "match_ok (MTag tag pre) =
     ((pre = [] \<or> pre = ''.'' \<or> pre = ''#'') \<and> take (length pre) tag = pre
      \<and> tag_text (drop (length pre) tag))"
| "match_ok (MAttr n v) = (name_ok n \<and> list_all value_char (or_empty v))"
| "match_ok _ = True"

definition st_ok :: "pstate \<Rightarrow> bool" where
  "st_ok st = (list_all sel_ok (results st) \<and> sel_ok (cssSelector st))"

lemma list_all_takeWhile: "list_all P (takeWhile P xs)"
  by (induction xs) auto

lemma alt_tag_ok: "alt_tag s = Some (m, r) \<Longrightarrow> match_ok m"
  unfolding alt_tag_def Let_def
  by (auto simp: tag_text_def list_all_takeWhile split: if_splits list.splits)

lemma alt_attr_value_ok: "alt_attr_value s = Some (v, r) \<Longrightarrow> list_all value_char v"
  unfolding alt_attr_value_def Let_def
  by (auto simp: list_all_takeWhile split: if_splits)

lemma alt_attr_ok: "alt_attr s = Some (m, r) \<Longrightarrow> match_ok m"
  unfolding alt_attr_def Let_def
  by (auto simp: name_ok_def list_all_takeWhile split: if_splits list.splits option.splits
      dest: alt_attr_value_ok)

lemma match_here_ok: "match_here s = Some (m, r) \<Longrightarrow> match_ok m"
  unfolding match_here_def
  by (auto simp: alt_not_def alt_close_def alt_comma_def
      split: option.splits if_splits list.splits dest: alt_tag_ok alt_attr_ok)

lemma exec_ok: "exec s = Some (m, r) \<Longrightarrow> match_ok m"
  by (induction s) (auto split: option.splits dest: match_here_ok)

lemma scan_ok: "list_all match_ok (scan s)"
proof (induction s rule: scan.induct)
  case (1 s)
  show ?case
  proof (cases "exec s")
    case None
    then show ?thesis by (simp add: scan_None)
  next
    case (Some a)
    obtain m rest where a: "a = (m, rest)" by (cases a)
    with Some have ex: "exec s = Some (m, rest)" by simp
    from "1.IH" [OF ex refl] exec_ok [OF ex] show ?thesis
      by (simp add: scan_Some [OF ex])
  qed
qed

lemma attrs_ok_append2:
  "attrs_ok (ats @ [n, v]) \<longleftrightarrow> attrs_ok ats \<and> name_ok n \<and> value_ok v"
  by (induction ats rule: attrs_ok.induct) auto

lemma lower_case_toLowerCase: "lower_case (toLowerCase s)"
  by (simp add: lower_case_def toLowerCase_idem)

lemma tag_text_toLowerCase: "tag_text t \<Longrightarrow> tag_text (toLowerCase t)"
  by (auto simp: tag_text_def toLowerCase_def list_all_iff tag_char_lower)

lemma value_chars_toLowerCase: "list_all value_char v \<Longrightarrow> list_all value_char (toLowerCase v)"
  by (auto simp: toLowerCase_def list_all_iff value_char_lower)

lemma tag_text_value_chars: "tag_text t \<Longrightarrow> list_all value_char t"
  by (auto simp: tag_text_def list_all_iff tag_char_value_char)

lemma name_ok_id: "name_ok ''id''"
  by (simp add: name_ok_def attr_char_def is_word_def)

lemma flat_ok_setElement: "tag_text t \<Longrightarrow> flat_ok c \<Longrightarrow> flat_ok (setElement (Some t) c)"
  by (cases c) (simp add: flat_ok_def)

lemma flat_ok_addClassName: "tag_text k \<Longrightarrow> flat_ok c \<Longrightarrow> flat_ok (addClassName k c)"
  by (cases c) (simp add: flat_ok_def class_ok_def tag_text_toLowerCase lower_case_toLowerCase)

lemma flat_ok_addAttribute:
  "name_ok n \<Longrightarrow> list_all value_char v \<Longrightarrow> flat_ok c \<Longrightarrow> flat_ok (addAttribute n v c)"
  by (cases c)
    (simp add: flat_ok_def attrs_ok_append2 value_ok_def value_chars_toLowerCase
      lower_case_toLowerCase)

lemma nots_setElement [simp]: "notSelectors (setElement e c) = notSelectors c"
  by (cases c) simp

lemma nots_addClassName [simp]: "notSelectors (addClassName k c) = notSelectors c"
  by (cases c) simp

lemma nots_addAttribute [simp]: "notSelectors (addAttribute n v c) = notSelectors c"
  by (cases c) simp

lemma flat_ok_nots_irrelevant:
  "flat_ok (CssSelector e cs ats ns) = flat_ok (CssSelector e cs ats ns')"
  by (simp add: flat_ok_def)

lemma sel_ok_on_last_not:
  assumes f: "\<And>c. flat_ok c \<Longrightarrow> flat_ok (f c)" and n: "\<And>c. notSelectors (f c) = notSelectors c"
    and ok: "sel_ok c"
  shows "sel_ok (on_last_not f c)"
proof (cases c)
  case (CssSelector e cs ats ns)
  show ?thesis
  proof (cases "ns = []")
    case True
    with ok CssSelector show ?thesis by simp
  next
    case False
    then have ns: "ns = butlast ns @ [last ns]" by simp
    from ok CssSelector have "list_all inner_ok ns" by (simp add: sel_ok_def)
    with False have "list_all inner_ok (butlast ns)" and "inner_ok (last ns)"
      by (auto simp: list_all_iff dest: in_set_butlastD)
    then have "list_all inner_ok (butlast ns @ [f (last ns)])"
      by (simp add: inner_ok_def f n)
    with ok CssSelector False show ?thesis
      by (simp add: sel_ok_def flat_ok_def)
  qed
qed

lemma st_ok_on_current:
  assumes f: "\<And>c. flat_ok c \<Longrightarrow> flat_ok (f c)" and n: "\<And>c. notSelectors (f c) = notSelectors c"
    and ok: "st_ok st"
  shows "st_ok (on_current f st)"
proof (cases "current st")
  case CurTop
  with ok show ?thesis
    by (simp add: on_current_def st_ok_def sel_ok_def f n)
next
  case CurNot
  with ok sel_ok_on_last_not [of f "cssSelector st", OF f n] show ?thesis
    by (simp add: on_current_def st_ok_def)
qed

lemma sel_ok_new: "sel_ok new_CssSelector" "inner_ok new_CssSelector"
  by (simp_all add: sel_ok_def inner_ok_def flat_ok_def new_CssSelector_def)

lemma sel_ok_push_not: "sel_ok c \<Longrightarrow> inner_ok n \<Longrightarrow> sel_ok (push_not n c)"
  by (cases c) (simp add: sel_ok_def flat_ok_def)

lemma st_ok_setElement: "tag_text t \<Longrightarrow> st_ok st \<Longrightarrow> st_ok (on_current (setElement (Some t)) st)"
  by (rule st_ok_on_current) (simp_all add: flat_ok_setElement)

lemma st_ok_addClassName: "tag_text k \<Longrightarrow> st_ok st \<Longrightarrow> st_ok (on_current (addClassName k) st)"
  by (rule st_ok_on_current) (simp_all add: flat_ok_addClassName)

lemma st_ok_addAttribute:
  "name_ok n \<Longrightarrow> list_all value_char v \<Longrightarrow> st_ok st \<Longrightarrow> st_ok (on_current (addAttribute n v) st)"
  by (rule st_ok_on_current) (simp_all add: flat_ok_addAttribute)

lemma parse_step_st_ok:
  assumes ok: "st_ok st" and m: "match_ok m" and s: "parse_step st m = Inr st'"
  shows "st_ok st'"
proof (cases m)
  case MNot
  with s have "st' = st\<lparr>inNot := True, current := CurNot,
                   cssSelector := push_not new_CssSelector (cssSelector st)\<rparr>"
    by (simp split: if_splits)
  with ok show ?thesis
    by (simp add: st_ok_def sel_ok_push_not sel_ok_new)
next
  case (MTag tag pre)
  with m have t: "tag_text (drop (length pre) tag)" and p: "pre = [] \<or> pre = ''.'' \<or> pre = ''#''"
    by simp_all
  from p consider (e) "pre = []" | (c) "pre = ''.''" | (i) "pre = ''#''" by blast
  then show ?thesis
  proof cases
    case e
    with t have "tag_text tag" by simp
    moreover from s MTag e have "st' = on_current (setElement (Some tag)) st" by simp
    ultimately show ?thesis using ok by (simp add: st_ok_setElement)
  next
    case c
    with t have "tag_text (drop 1 tag)" by simp
    moreover from s MTag c have "st' = on_current (addClassName (drop 1 tag)) st" by simp
    ultimately show ?thesis using ok by (simp add: st_ok_addClassName)
  next
    case i
    with t have "tag_text (drop 1 tag)" by simp
    then have "list_all value_char (drop 1 tag)" by (rule tag_text_value_chars)
    moreover from s MTag i have "st' = on_current (addAttribute ''id'' (drop 1 tag)) st" by simp
    ultimately show ?thesis using ok by (simp add: st_ok_addAttribute name_ok_id)
  qed
next
  case (MAttr n v)
  with m have "name_ok n" and "list_all value_char (or_empty v)" by simp_all
  moreover from s MAttr have "st' = on_current (addAttribute n (or_empty v)) st" by simp
  ultimately show ?thesis using ok by (simp add: st_ok_addAttribute)
next
  case MClose
  with s have "st' = st\<lparr>inNot := False, current := CurTop\<rparr>" by simp
  with ok show ?thesis by (simp add: st_ok_def)
next
  case MComma
  with s have "st' = st\<lparr>results := results st @ [cssSelector st],
                   cssSelector := new_CssSelector, current := CurTop\<rparr>"
    by (simp split: if_splits)
  with ok show ?thesis by (simp add: st_ok_def sel_ok_new)
qed

lemma steps_st_ok:
  "st_ok st \<Longrightarrow> list_all match_ok ms \<Longrightarrow> steps st ms = Inr st' \<Longrightarrow> st_ok st'"
proof (induction ms arbitrary: st)
  case Nil
  then show ?case by simp
next
  case (Cons m ms)
  from Cons.prems obtain st1 where s: "parse_step st m = Inr st1" and r: "steps st1 ms = Inr st'"
    by (auto split: sum.splits)
  from Cons.prems s have "st_ok st1" by (auto intro: parse_step_st_ok)
  with Cons.IH [of st1] Cons.prems r show ?case by simp
qed

lemma parse_sel_ok:
  assumes "parse s = Inr sels"
  shows "list_all sel_ok sels"
proof -
  from assms obtain st' where s: "steps init_pstate (scan s) = Inr st'"
    and sels: "sels = results st' @ [cssSelector st']"
    by (auto simp: parse_def parse_loop_steps split: sum.splits)
  have "st_ok init_pstate" by (simp add: st_ok_def init_pstate_def sel_ok_new)
  from steps_st_ok [OF this scan_ok s] sels show ?thesis by (simp add: st_ok_def)
qed

lemmas parse_eval = parse_def init_pstate_def parse_loop.simps exec_defs new_CssSelector_def
  on_current_def toLowerCase_def lower_char_def char_of_eq_iff







section \<open>Serialising and parsing again\<close>

text \<open>
  The scan of a serialised selector. Each part that \<^verbatim>\<open>toString\<close> writes is matched as a
  whole at the place where it starts, as long as the text after a tag or class does not
  go on with a tag character.
\<close>

definition no_tag_start :: "string \<Rightarrow> bool" where
  "no_tag_start s = (case s of [] \<Rightarrow> True | c # _ \<Rightarrow> \<not> tag_char c)"

lemma run_append:
  "list_all P t \<Longrightarrow> (case rest of [] \<Rightarrow> True | c # _ \<Rightarrow> \<not> P c) \<Longrightarrow>
   takeWhile P (t @ rest) = t \<and> dropWhile P (t @ rest) = rest"
  by (induction t) (auto split: list.splits)

lemma tag_char_not_special:
  "tag_char c \<Longrightarrow> c \<noteq> CHR '':'' \<and> c \<noteq> CHR ''.'' \<and> c \<noteq> CHR ''#''"
  unfolding tag_char_code by auto

lemma not_tag_char_special:
  "\<not> tag_char (CHR ''['')" "\<not> tag_char (CHR '')'')" "\<not> tag_char (CHR ''.'')" "\<not> tag_char (CHR '':'')"
  unfolding tag_char_code by simp_all

lemma not_attr_char_special: "\<not> attr_char (CHR '']'')" "\<not> attr_char (CHR ''='')"
  unfolding attr_char_code by simp_all

lemma not_value_char_bracket: "\<not> value_char (CHR '']'')"
  by (simp add: value_char_def)

lemma exec_tag:
  assumes "tag_text t" and "no_tag_start rest"
  shows "exec (t @ rest) = Some (MTag t [], rest)"
proof -
  from assms(1) obtain c t' where t: "t = c # t'" and c: "tag_char c" and all: "list_all tag_char t"
    by (cases t) (auto simp: tag_text_def)
  from assms(2) have "case rest of [] \<Rightarrow> True | c # _ \<Rightarrow> \<not> tag_char c"
    by (simp add: no_tag_start_def)
  from run_append [OF all this]
  have run: "takeWhile tag_char (t @ rest) = t" "dropWhile tag_char (t @ rest) = rest" by simp_all
  from tag_char_not_special [OF c] have n: "alt_not (t @ rest) = None"
    by (auto simp: alt_not_def t)
  from tag_char_not_special [OF c] run have "alt_tag (t @ rest) = Some (MTag t [], rest)"
    unfolding alt_tag_def Let_def by (simp add: t)
  with n have "match_here (t @ rest) = Some (MTag t [], rest)"
    by (simp add: match_here_def)
  then show ?thesis by (simp add: t)
qed

lemma exec_class:
  assumes "tag_text k" and "no_tag_start rest"
  shows "exec (CHR ''.'' # k @ rest) = Some (MTag (CHR ''.'' # k) ''.'', rest)"
proof -
  from assms(1) have all: "list_all tag_char k" and ne: "k \<noteq> []" by (simp_all add: tag_text_def)
  from assms(2) have "case rest of [] \<Rightarrow> True | c # _ \<Rightarrow> \<not> tag_char c"
    by (simp add: no_tag_start_def)
  from run_append [OF all this]
  have run: "takeWhile tag_char (k @ rest) = k" "dropWhile tag_char (k @ rest) = rest" by simp_all
  have n: "alt_not (CHR ''.'' # k @ rest) = None" by (simp add: alt_not_def)
  have "alt_tag (CHR ''.'' # k @ rest) = Some (MTag (CHR ''.'' # k) ''.'', rest)"
    unfolding alt_tag_def Let_def using run ne by simp
  with n have "match_here (CHR ''.'' # k @ rest) = Some (MTag (CHR ''.'' # k) ''.'', rest)"
    by (simp add: match_here_def)
  then show ?thesis by simp
qed

lemma exec_attr_plain:
  assumes "name_ok n"
  shows "exec (CHR ''['' # n @ CHR '']'' # rest) = Some (MAttr n None, rest)"
proof -
  from assms have all: "list_all attr_char n" and ne: "n \<noteq> []" by (simp_all add: name_ok_def)
  have "case CHR '']'' # rest of [] \<Rightarrow> True | c # _ \<Rightarrow> \<not> attr_char c"
    by (simp add: not_attr_char_special)
  from run_append [OF all this]
  have run: "takeWhile attr_char (n @ CHR '']'' # rest) = n"
    "dropWhile attr_char (n @ CHR '']'' # rest) = CHR '']'' # rest" by simp_all
  have n: "alt_not (CHR ''['' # n @ CHR '']'' # rest) = None" by (simp add: alt_not_def)
  have t: "alt_tag (CHR ''['' # n @ CHR '']'' # rest) = None"
    unfolding alt_tag_def Let_def by (simp add: not_tag_char_special)
  have "alt_attr (CHR ''['' # n @ CHR '']'' # rest) = Some (MAttr n None, rest)"
    unfolding alt_attr_def Let_def using run ne by simp
  with n t have "match_here (CHR ''['' # n @ CHR '']'' # rest) = Some (MAttr n None, rest)"
    by (simp add: match_here_def)
  then show ?thesis by simp
qed

lemma alt_attr_value_plain:
  assumes "v \<noteq> []" and all: "list_all value_char v"
  shows "alt_attr_value (v @ CHR '']'' # rest) = Some (v, rest)"
proof -
  from assms obtain c v' where v: "v = c # v'" and c: "value_char c" by (cases v) auto
  then have q: "opt_quote (v @ CHR '']'' # rest) = []"
    by (simp add: opt_quote_def value_char_def)
  have "case CHR '']'' # rest of [] \<Rightarrow> True | c # _ \<Rightarrow> \<not> value_char c"
    by (simp add: not_value_char_bracket)
  from run_append [OF all this]
  have run: "takeWhile value_char (v @ CHR '']'' # rest) = v"
    "dropWhile value_char (v @ CHR '']'' # rest) = CHR '']'' # rest" by simp_all
  show ?thesis
    unfolding alt_attr_value_def Let_def q using run by simp
qed

lemma exec_attr_value:
  assumes "name_ok n" and "v \<noteq> []" and "list_all value_char v"
  shows "exec (CHR ''['' # n @ CHR ''='' # v @ CHR '']'' # rest) = Some (MAttr n (Some v), rest)"
proof -
  let ?s = "CHR ''['' # n @ CHR ''='' # v @ CHR '']'' # rest"
  from assms have all: "list_all attr_char n" and ne: "n \<noteq> []" by (simp_all add: name_ok_def)
  have "case CHR ''='' # v @ CHR '']'' # rest of [] \<Rightarrow> True | c # _ \<Rightarrow> \<not> attr_char c"
    by (simp add: not_attr_char_special)
  from run_append [OF all this]
  have run: "takeWhile attr_char (n @ CHR ''='' # v @ CHR '']'' # rest) = n"
    "dropWhile attr_char (n @ CHR ''='' # v @ CHR '']'' # rest) = CHR ''='' # v @ CHR '']'' # rest"
    by simp_all
  have n: "alt_not ?s = None" by (simp add: alt_not_def)
  have t: "alt_tag ?s = None"
    unfolding alt_tag_def Let_def by (simp add: not_tag_char_special)
  have "alt_attr ?s = Some (MAttr n (Some v), rest)"
    unfolding alt_attr_def Let_def using run ne alt_attr_value_plain [OF assms(2,3), of rest] by simp
  with n t have "match_here ?s = Some (MAttr n (Some v), rest)"
    by (simp add: match_here_def)
  then show ?thesis by simp
qed

lemma exec_not: "exec ('':not('' @ rest) = Some (MNot, rest)"
  by (simp add: match_here_def alt_not_def)

lemma exec_close: "exec (CHR '')'' # rest) = Some (MClose, rest)"
  by (simp add: match_here_def alt_not_def alt_tag_def alt_attr_def alt_close_def
      not_tag_char_special)

text \<open>
  The matches that the scan finds in the text of a well-formed selector: one for the
  element, one for each class, one for each attribute, and for each negated selector an
  opening match, the matches of its own parts and a closing match.
\<close>

definition class_tokens :: "string list \<Rightarrow> rmatch list" where
  "class_tokens cls = map (\<lambda>k. MTag (CHR ''.'' # k) ''.'') cls"

fun attr_tokens :: "string list \<Rightarrow> rmatch list" where
  "attr_tokens (n # v # rest) = MAttr n (if v = [] then None else Some v) # attr_tokens rest"
| "attr_tokens _ = []"

definition flat_tokens :: "CssSelector \<Rightarrow> rmatch list" where
  "flat_tokens c =
     (case element c of None \<Rightarrow> [] | Some t \<Rightarrow> [MTag t []])
     @ class_tokens (classNames c) @ attr_tokens (attrs c)"

definition flat_text :: "CssSelector \<Rightarrow> string" where
  "flat_text c =
     (if truthy (element c) then or_empty (element c) else [])
     @ concat (map (\<lambda>klass. ''.'' @ klass) (classNames c)) @ attrs_text (attrs c)"

definition nots_text :: "CssSelector list \<Rightarrow> string" where
  "nots_text nots = concat (map (\<lambda>notSelector. '':not('' @ toString notSelector @ '')'') nots)"

definition nots_tokens :: "CssSelector list \<Rightarrow> rmatch list" where
  "nots_tokens nots = concat (map (\<lambda>n. MNot # flat_tokens n @ [MClose]) nots)"

lemma dot_append: "(@) ''.'' = (#) CHR ''.''"
  by (rule ext) simp

lemma toString_split: "toString c = flat_text c @ nots_text (notSelectors c)"
  by (cases c) (simp add: flat_text_def nots_text_def dot_append)

lemma toString_inner: "inner_ok n \<Longrightarrow> toString n = flat_text n"
  using toString_split [of n] by (simp add: inner_ok_def nots_text_def)

lemma no_tag_start_simps [simp]:
  "no_tag_start []" "no_tag_start (CHR ''.'' # s)" "no_tag_start (CHR ''['' # s)"
  "no_tag_start (CHR '':'' # s)" "no_tag_start (CHR '')'' # s)"
  by (simp_all add: no_tag_start_def not_tag_char_special)

lemma nts_classes:
  "no_tag_start rest \<Longrightarrow> no_tag_start (concat (map ((#) CHR ''.'') cls) @ rest)"
  by (cases cls) simp_all

lemma nts_attrs: "no_tag_start rest \<Longrightarrow> no_tag_start (attrs_text ats @ rest)"
  by (cases ats rule: attrs_text.cases) simp_all

lemma nts_nots: "no_tag_start rest \<Longrightarrow> no_tag_start (nots_text nots @ rest)"
  by (cases nots) (simp_all add: nots_text_def)

lemma scan_Nil: "scan [] = []"
  by (simp add: scan_None)

lemma scan_classes:
  "list_all class_ok cls \<Longrightarrow> no_tag_start rest \<Longrightarrow>
   scan (concat (map ((#) CHR ''.'') cls) @ rest) = class_tokens cls @ scan rest"
proof (induction cls)
  case Nil
  then show ?case by (simp add: class_tokens_def)
next
  case (Cons k cls)
  let ?rest = "concat (map ((#) CHR ''.'') cls) @ rest"
  from Cons.prems have k: "tag_text k" by (simp add: class_ok_def)
  from Cons.prems have n: "no_tag_start ?rest" by (simp add: nts_classes)
  from exec_class [OF k n] have "scan (CHR ''.'' # k @ ?rest) = MTag (CHR ''.'' # k) ''.'' # scan ?rest"
    by (rule scan_Some)
  with Cons show ?case by (simp add: class_tokens_def)
qed

lemma scan_attrs:
  "attrs_ok ats \<Longrightarrow> scan (attrs_text ats @ rest) = attr_tokens ats @ scan rest"
proof (induction ats rule: attrs_ok.induct)
  case 1
  then show ?case by simp
next
  case (2 n)
  then show ?case by simp
next
  case (3 n v ats)
  let ?rest = "attrs_text ats @ rest"
  from "3.prems" have n: "name_ok n" and v: "list_all value_char v" and r: "attrs_ok ats"
    by (simp_all add: value_ok_def)
  show ?case
  proof (cases "v = []")
    case True
    from exec_attr_plain [OF n, of ?rest]
    have "scan (CHR ''['' # n @ CHR '']'' # ?rest) = MAttr n None # scan ?rest"
      by (rule scan_Some)
    with True "3.IH" [OF r] show ?thesis by simp
  next
    case False
    from exec_attr_value [OF n False v, of ?rest]
    have "scan (CHR ''['' # n @ CHR ''='' # v @ CHR '']'' # ?rest) = MAttr n (Some v) # scan ?rest"
      by (rule scan_Some)
    with False "3.IH" [OF r] show ?thesis by simp
  qed
qed

lemma scan_flat:
  assumes ok: "flat_ok c" and rest: "no_tag_start rest"
  shows "scan (flat_text c @ rest) = flat_tokens c @ scan rest"
proof -
  let ?tail = "concat (map ((#) CHR ''.'') (classNames c)) @ attrs_text (attrs c) @ rest"
  from ok have cls: "list_all class_ok (classNames c)" and ats: "attrs_ok (attrs c)"
    by (simp_all add: flat_ok_def)
  from rest have "no_tag_start (attrs_text (attrs c) @ rest)" by (rule nts_attrs)
  from scan_classes [OF cls this] scan_attrs [OF ats, of rest]
  have tail: "scan ?tail = class_tokens (classNames c) @ attr_tokens (attrs c) @ scan rest"
    by simp
  show ?thesis
  proof (cases "element c")
    case None
    with tail show ?thesis by (simp add: flat_text_def flat_tokens_def)
  next
    case (Some t)
    with ok have t: "tag_text t" by (simp add: flat_ok_def)
    from rest have "no_tag_start ?tail" by (simp add: nts_classes nts_attrs)
    from exec_tag [OF t this] have "scan (t @ ?tail) = MTag t [] # scan ?tail"
      by (rule scan_Some)
    with Some t tail show ?thesis by (simp add: flat_text_def flat_tokens_def tag_text_def)
  qed
qed

lemma scan_nots:
  "list_all inner_ok nots \<Longrightarrow> scan (nots_text nots @ rest) = nots_tokens nots @ scan rest"
proof (induction nots)
  case Nil
  then show ?case by (simp add: nots_text_def nots_tokens_def)
next
  case (Cons n nots)
  let ?rest = "nots_text nots @ rest"
  from Cons.prems have n: "inner_ok n" by simp
  then have f: "flat_ok n" by (simp add: inner_ok_def)
  have "scan ('':not('' @ flat_text n @ CHR '')'' # ?rest) = MNot # scan (flat_text n @ CHR '')'' # ?rest)"
    by (rule scan_Some) (rule exec_not)
  also have "scan (flat_text n @ CHR '')'' # ?rest) = flat_tokens n @ scan (CHR '')'' # ?rest)"
    by (rule scan_flat [OF f]) simp
  also have "scan (CHR '')'' # ?rest) = MClose # scan ?rest"
    by (rule scan_Some) (rule exec_close)
  finally have "scan ('':not('' @ flat_text n @ CHR '')'' # ?rest)
      = MNot # flat_tokens n @ MClose # scan ?rest" .
  moreover have "nots_text (n # nots) @ rest = '':not('' @ flat_text n @ CHR '')'' # ?rest"
    by (simp add: nots_text_def toString_inner [OF n])
  ultimately show ?case using Cons by (simp add: nots_tokens_def)
qed

lemma scan_toString:
  assumes "sel_ok c"
  shows "scan (toString c) = flat_tokens c @ nots_tokens (notSelectors c)"
proof -
  from assms have f: "flat_ok c" and n: "list_all inner_ok (notSelectors c)"
    by (simp_all add: sel_ok_def)
  have "no_tag_start (nots_text (notSelectors c) @ [])" by (rule nts_nots) simp
  from scan_flat [OF f this] scan_nots [OF n, of "[]"] show ?thesis
    by (simp add: toString_split scan_Nil)
qed

text \<open>
  The loop of \<^verbatim>\<open>parse\<close> on these matches: the matches of the parts of a selector call the
  methods of \<^verbatim>\<open>current\<close> in turn, which on a new selector builds the parts again.
\<close>

definition add_classes :: "string list \<Rightarrow> CssSelector \<Rightarrow> CssSelector" where
  "add_classes cls x = fold addClassName cls x"

fun add_attrs :: "string list \<Rightarrow> CssSelector \<Rightarrow> CssSelector" where
  "add_attrs (n # v # rest) x = add_attrs rest (addAttribute n v x)"
| "add_attrs _ x = x"

definition absorb :: "CssSelector \<Rightarrow> CssSelector \<Rightarrow> CssSelector" where
  "absorb c x =
     add_attrs (attrs c) (add_classes (classNames c)
       (case element c of None \<Rightarrow> x | Some t \<Rightarrow> setElement (Some t) x))"

lemma add_classes_Nil: "add_classes [] = (\<lambda>x. x)"
  by (rule ext) (simp add: add_classes_def)

lemma add_classes_Cons: "add_classes (k # cls) = (\<lambda>x. add_classes cls (addClassName k x))"
  by (rule ext) (simp add: add_classes_def)

lemma add_attrs_fun:
  "add_attrs [] = (\<lambda>x. x)" "add_attrs [n] = (\<lambda>x. x)"
  "add_attrs (n # v # rest) = (\<lambda>x. add_attrs rest (addAttribute n v x))"
  by (rule ext, simp)+

lemma absorb_fun:
  "absorb c = (\<lambda>x. add_attrs (attrs c) (add_classes (classNames c)
       (case element c of None \<Rightarrow> x | Some t \<Rightarrow> setElement (Some t) x)))"
  by (rule ext) (simp add: absorb_def)

lemma on_last_not_comp: "on_last_not f (on_last_not g c) = on_last_not (\<lambda>x. f (g x)) c"
  by (cases c) simp

lemma on_last_not_id: "on_last_not (\<lambda>x. x) c = c"
  by (cases c) simp

lemma current_on_current [simp]: "current (on_current f st) = current st"
  by (simp add: on_current_def split: cur_ref.splits)

lemma on_current_comp: "on_current f (on_current g st) = on_current (\<lambda>x. f (g x)) st"
  by (cases "current st") (simp_all add: on_current_def on_last_not_comp)

lemma on_current_id: "on_current (\<lambda>x. x) st = st"
  by (cases "current st") (simp_all add: on_current_def on_last_not_id)

lemma steps_append:
  "steps st (xs @ ys) = (case steps st xs of Inl e \<Rightarrow> Inl e | Inr st' \<Rightarrow> steps st' ys)"
  by (induction xs arbitrary: st) (simp_all split: sum.splits)

lemma steps_classes: "steps st (class_tokens cls) = Inr (on_current (add_classes cls) st)"
proof (induction cls arbitrary: st)
  case Nil
  then show ?case by (simp add: class_tokens_def add_classes_def on_current_id)
next
  case (Cons k cls)
  have "steps st (class_tokens (k # cls)) = steps (on_current (addClassName k) st) (class_tokens cls)"
    by (simp add: class_tokens_def)
  also have "\<dots> = Inr (on_current (add_classes cls) (on_current (addClassName k) st))"
    by (rule Cons.IH)
  also have "\<dots> = Inr (on_current (add_classes (k # cls)) st)"
    by (simp add: on_current_comp add_classes_Cons)
  finally show ?case .
qed

lemma steps_attrs: "steps st (attr_tokens ats) = Inr (on_current (add_attrs ats) st)"
proof (induction ats arbitrary: st rule: attr_tokens.induct)
  case (1 n v rest)
  have "parse_step st (MAttr n (if v = [] then None else Some v)) = Inr (on_current (addAttribute n v) st)"
    by simp
  then have "steps st (attr_tokens (n # v # rest))
      = steps (on_current (addAttribute n v) st) (attr_tokens rest)"
    by simp
  also have "\<dots> = Inr (on_current (add_attrs rest) (on_current (addAttribute n v) st))"
    by (rule "1.IH")
  also have "\<dots> = Inr (on_current (add_attrs (n # v # rest)) st)"
    by (simp add: on_current_comp add_attrs_fun)
  finally show ?case .
qed (simp_all add: on_current_id add_attrs_fun)

lemma steps_flat: "steps st (flat_tokens c) = Inr (on_current (absorb c) st)"
proof (cases "element c")
  case None
  then show ?thesis
    by (simp add: flat_tokens_def steps_append steps_classes steps_attrs on_current_comp absorb_fun)
next
  case (Some t)
  then show ?thesis
    by (simp add: flat_tokens_def steps_append steps_classes steps_attrs on_current_comp absorb_fun)
qed

lemma add_classes_eval:
  "add_classes cls (CssSelector e cs ats ns) = CssSelector e (cs @ map toLowerCase cls) ats ns"
  unfolding add_classes_def by (induction cls arbitrary: cs) simp_all

lemma add_attrs_eval:
  "attrs_ok new \<Longrightarrow> add_attrs new (CssSelector e cs ats ns) = CssSelector e cs (ats @ new) ns"
  by (induction new arbitrary: ats rule: attrs_ok.induct)
    (simp_all add: value_ok_def lower_case_def)

lemma map_lower_classes: "list_all class_ok cls \<Longrightarrow> map toLowerCase cls = cls"
  by (induction cls) (simp_all add: class_ok_def lower_case_def)

lemma absorb_new:
  assumes "flat_ok c"
  shows "absorb c (CssSelector None [] [] ns) = CssSelector (element c) (classNames c) (attrs c) ns"
proof -
  from assms have cls: "list_all class_ok (classNames c)" and ats: "attrs_ok (attrs c)"
    by (simp_all add: flat_ok_def)
  show ?thesis
    by (cases "element c")
      (simp_all add: absorb_def add_classes_eval add_attrs_eval [OF ats] map_lower_classes [OF cls])
qed

lemma absorb_inner: "inner_ok n \<Longrightarrow> absorb n new_CssSelector = n"
  by (cases n) (simp add: inner_ok_def new_CssSelector_def absorb_new)

lemma steps_nots:
  "list_all inner_ok nots \<Longrightarrow>
   steps \<lparr>results = rs, cssSelector = CssSelector e cs ats ns, current = CurTop, inNot = False\<rparr>
     (nots_tokens nots)
   = Inr \<lparr>results = rs, cssSelector = CssSelector e cs ats (ns @ nots), current = CurTop,
          inNot = False\<rparr>"
proof (induction nots arbitrary: ns)
  case Nil
  then show ?case by (simp add: nots_tokens_def)
next
  case (Cons n nots)
  let ?st = "\<lparr>results = rs, cssSelector = CssSelector e cs ats ns, current = CurTop, inNot = False\<rparr>"
  let ?st1 = "\<lparr>results = rs, cssSelector = CssSelector e cs ats (ns @ [new_CssSelector]),
                current = CurNot, inNot = True\<rparr>"
  let ?st2 = "\<lparr>results = rs, cssSelector = CssSelector e cs ats (ns @ [n]),
                current = CurNot, inNot = True\<rparr>"
  let ?st3 = "\<lparr>results = rs, cssSelector = CssSelector e cs ats (ns @ [n]),
                current = CurTop, inNot = False\<rparr>"
  from Cons.prems have n: "inner_ok n" and rest: "list_all inner_ok nots" by simp_all
  have a: "parse_step ?st MNot = Inr ?st1" by simp
  have "on_current (absorb n) ?st1 = ?st2"
    by (simp add: on_current_def absorb_inner [OF n])
  then have b: "steps ?st1 (flat_tokens n) = Inr ?st2" by (simp add: steps_flat)
  have c: "parse_step ?st2 MClose = Inr ?st3" by simp
  have d: "steps ?st3 (nots_tokens nots)
      = Inr \<lparr>results = rs, cssSelector = CssSelector e cs ats ((ns @ [n]) @ nots), current = CurTop,
          inNot = False\<rparr>"
    by (rule Cons.IH [OF rest])
  have "nots_tokens (n # nots) = MNot # (flat_tokens n @ (MClose # nots_tokens nots))"
    by (simp add: nots_tokens_def)
  then have "steps ?st (nots_tokens (n # nots)) = steps ?st1 (flat_tokens n @ (MClose # nots_tokens nots))"
    using a by simp
  also have "\<dots> = steps ?st2 (MClose # nots_tokens nots)"
    by (simp add: steps_append b)
  also have "\<dots> = steps ?st3 (nots_tokens nots)"
    using c by simp
  finally show ?case using d by simp
qed

lemma parse_toString:
  assumes ok: "sel_ok c"
  shows "parse (toString c) = Inr [c]"
proof -
  from ok have f: "flat_ok c" and n: "list_all inner_ok (notSelectors c)"
    by (simp_all add: sel_ok_def)
  let ?st = "\<lparr>results = [], cssSelector = CssSelector (element c) (classNames c) (attrs c) [],
               current = CurTop, inNot = False\<rparr>"
  have "on_current (absorb c) init_pstate = ?st"
    by (simp add: on_current_def init_pstate_def new_CssSelector_def absorb_new [OF f])
  then have a: "steps init_pstate (flat_tokens c) = Inr ?st" by (simp add: steps_flat)
  have b: "steps ?st (nots_tokens (notSelectors c))
     = Inr \<lparr>results = [], cssSelector = CssSelector (element c) (classNames c) (attrs c)
             ([] @ notSelectors c), current = CurTop, inNot = False\<rparr>"
    by (rule steps_nots [OF n])
  have "steps init_pstate (scan (toString c))
     = Inr \<lparr>results = [], cssSelector = c, current = CurTop, inNot = False\<rparr>"
    by (simp add: scan_toString [OF ok] steps_append a b)
  then show ?thesis by (simp add: parse_def parse_loop_steps)
qed

text \<open>
  Claim C7: for every selector string that \<^verbatim>\<open>parse\<close> accepts, serialising a selector of the
  result with \<^verbatim>\<open>toString\<close> and parsing the text again gives that selector and no other, so
  the selectors parsed from the serialised texts are those of the first parse.
\<close>

theorem parse_toString_round_trip:
  assumes "parse s = Inr sels" and "sel \<in> set sels"
  shows "parse (toString sel) = Inr [sel]"
proof -
  from parse_sel_ok [OF assms(1)] assms(2) have "sel_ok sel" by (simp add: list_all_iff)
  then show ?thesis by (rule parse_toString)
qed

text \<open>
  Claim C7 on a list of two selectors; the serialised text of the first differs from the
  text it was parsed from.
\<close>

theorem parse_toString_round_trip_witness:
  "parse ''Div.A#B[C=D]:not(.E), span''
     = Inr [CssSelector (Some ''Div'') [''a''] [''id'', ''b'', ''C'', ''d'']
              [CssSelector None [''e''] [] []],
            CssSelector (Some ''span'') [] [] []]
   \<and> toString (CssSelector (Some ''Div'') [''a''] [''id'', ''b'', ''C'', ''d'']
              [CssSelector None [''e''] [] []]) = ''Div.a[id=b][C=d]:not(.e)''
   \<and> parse ''Div.a[id=b][C=d]:not(.e)''
     = Inr [CssSelector (Some ''Div'') [''a''] [''id'', ''b'', ''C'', ''d'']
              [CssSelector None [''e''] [] []]]"
proof -
  let ?c1 = "CssSelector (Some ''Div'') [''a''] [''id'', ''b'', ''C'', ''d'']
              [CssSelector None [''e''] [] []]"
  let ?c2 = "CssSelector (Some ''span'') [] [] []"
  have p: "parse ''Div.A#B[C=D]:not(.E), span'' = Inr [?c1, ?c2]"
    by (simp add: parse_eval)
  have m: "?c1 \<in> set [?c1, ?c2]" by simp
  have t: "toString ?c1 = ''Div.a[id=b][C=d]:not(.e)''" by simp
  from parse_toString_round_trip [OF p m] have "parse (toString ?c1) = Inr [?c1]" .
  with p t show ?thesis by simp
qed

end
